theory Spec2Isabelle
  imports Main "HOL-Library.Word"
begin

unbundle bit_operations_syntax

section \<open>Architecture: opcodes, register accesses, instruction formats\<close>

type_synonym instruction_type = "64 word"
type_synonym opcode_type = "16 word"

text \<open>
  Modelled from the spec: the constants of \<^verbatim>\<open>viua/arch/ops.h\<close> (the header is not
  among the sources). The opcode is the low 16 bits of an instruction word, its high
  four bits hold the greedy bit and the format; the values agree with the words
  \<^verbatim>\<open>0x1001\<close>, \<^verbatim>\<open>0x9001\<close> and \<^verbatim>\<open>0x5001\<close> that \<^verbatim>\<open>tools/asm.cpp\<close> prints as T-format,
  greedy T-format and E-format opcodes.
\<close>

definition GREEDY :: opcode_type where "GREEDY = 0x8000"
definition OPCODE_MASK :: opcode_type where "OPCODE_MASK = 0x7fff"
definition FORMAT_MASK :: opcode_type where "FORMAT_MASK = 0x7000"

definition FORMAT_N :: opcode_type where "FORMAT_N = 0x0000"
definition FORMAT_T :: opcode_type where "FORMAT_T = 0x1000"
definition FORMAT_D :: opcode_type where "FORMAT_D = 0x2000"
definition FORMAT_S :: opcode_type where "FORMAT_S = 0x3000"
definition FORMAT_F :: opcode_type where "FORMAT_F = 0x4000"
definition FORMAT_E :: opcode_type where "FORMAT_E = 0x5000"
definition FORMAT_R :: opcode_type where "FORMAT_R = 0x6000"

text \<open>
  Modelled from the spec: the opcode numbers (\<^verbatim>\<open>enum class OPCODE\<close> of the same
  header). Each is its format tag plus a number within the format.
\<close>

definition NOOP :: opcode_type where "NOOP = FORMAT_N OR 0x0000"
definition HALT :: opcode_type where "HALT = FORMAT_N OR 0x0001"
definition EBREAK :: opcode_type where "EBREAK = FORMAT_N OR 0x0002"
definition ADD :: opcode_type where "ADD = FORMAT_T OR 0x0001"
definition SUB :: opcode_type where "SUB = FORMAT_T OR 0x0002"
definition MUL :: opcode_type where "MUL = FORMAT_T OR 0x0003"
definition DIV :: opcode_type where "DIV = FORMAT_T OR 0x0004"
definition CALL :: opcode_type where "CALL = FORMAT_D OR 0x0001"
definition DELETE :: opcode_type where "DELETE = FORMAT_S OR 0x0001"
definition ATOM :: opcode_type where "ATOM = FORMAT_S OR 0x0004"
definition LUI :: opcode_type where "LUI = FORMAT_E OR 0x0001"
definition LUIU :: opcode_type where "LUIU = FORMAT_E OR 0x0002"
definition ADDI :: opcode_type where "ADDI = FORMAT_R OR 0x0001"
definition ADDIU :: opcode_type where "ADDIU = FORMAT_R OR 0x0002"

text \<open>
  Modelled from the spec: \<^verbatim>\<open>viua::arch::Register_access\<close> of \<^verbatim>\<open>viua/arch/arch.h\<close>
  (not among the sources). A register access names a register set, carries the
  direct/indirect bit and an 8-bit register index; the set \<open>VOID\<close> is the distinguished
  "no register" access.
\<close>

datatype REGISTER_SET = VOID | LOCAL | PARAMETER

record Register_access =
  ra_set :: REGISTER_SET
  ra_direct :: bool
  ra_index :: "8 word"

definition make_local :: "8 word \<Rightarrow> Register_access" where
  "make_local i = \<lparr>ra_set = LOCAL, ra_direct = True, ra_index = i\<rparr>"

definition make_void :: Register_access where
  "make_void = \<lparr>ra_set = VOID, ra_direct = True, ra_index = 0\<rparr>"

definition is_void_access :: "Register_access \<Rightarrow> bool" where
  "is_void_access a = (ra_set a = VOID)"

text \<open>
  Modelled from the spec: the 16-bit register access field. The index is the low byte,
  bit 8 the direct bit, the set index sits above it; the top nibble of the field is
  not used by the access, which is what lets the E and R formats carry 36 and 24 bits
  of immediate beside 16-bit access fields in a 64-bit word.
\<close>

definition set_code :: "REGISTER_SET \<Rightarrow> 16 word" where
  "set_code s = (case s of VOID \<Rightarrow> 0 | LOCAL \<Rightarrow> 1 | PARAMETER \<Rightarrow> 2)"

definition set_of_code :: "16 word \<Rightarrow> REGISTER_SET" where
  "set_of_code c = (if c = 1 then LOCAL else if c = 2 then PARAMETER else VOID)"

definition ra_encode :: "Register_access \<Rightarrow> 16 word" where
  "ra_encode a =
     ucast (ra_index a) OR push_bit 8 (of_bool (ra_direct a))
       OR push_bit 9 (set_code (ra_set a))"

definition ra_decode :: "16 word \<Rightarrow> Register_access" where
  "ra_decode raw =
     \<lparr>ra_set = set_of_code (take_bit 3 (drop_bit 9 raw)),
      ra_direct = bit raw 8,
      ra_index = ucast raw\<rparr>"

text \<open>
  Modelled from the spec: the operand bundles of the seven formats
  (\<^verbatim>\<open>viua::arch::ops::N\<close>, \<open>S\<close>, \<open>D\<close>, \<open>T\<close>, \<open>E\<close>, \<open>R\<close>, \<open>F\<close>) with their \<open>encode\<close> and
  \<open>decode\<close>. The opcode field keeps the greedy overlay.
\<close>

record N =
  n_opcode :: opcode_type

record S =
  s_opcode :: opcode_type
  s_out :: Register_access

record D =
  d_opcode :: opcode_type
  d_out :: Register_access
  d_in :: Register_access

record T =
  t_opcode :: opcode_type
  t_out :: Register_access
  t_lhs :: Register_access
  t_rhs :: Register_access

record E =
  e_opcode :: opcode_type
  e_out :: Register_access
  e_immediate :: "64 word"

record R =
  r_opcode :: opcode_type
  r_out :: Register_access
  r_in :: Register_access
  r_immediate :: "32 word"

record F =
  f_opcode :: opcode_type
  f_out :: Register_access
  f_immediate :: "32 word"

definition access_at :: "nat \<Rightarrow> Register_access \<Rightarrow> instruction_type" where
  "access_at k a = push_bit k (ucast (ra_encode a))"

definition access_of :: "nat \<Rightarrow> instruction_type \<Rightarrow> Register_access" where
  "access_of k raw = ra_decode (ucast (drop_bit k raw))"

definition opcode_of :: "instruction_type \<Rightarrow> opcode_type" where
  "opcode_of raw = ucast raw"

definition N_encode :: "N \<Rightarrow> instruction_type" where
  "N_encode i = ucast (n_opcode i)"

definition N_decode :: "instruction_type \<Rightarrow> N" where
  "N_decode raw = \<lparr>n_opcode = opcode_of raw\<rparr>"

definition S_encode :: "S \<Rightarrow> instruction_type" where
  "S_encode i = ucast (s_opcode i) OR access_at 16 (s_out i)"

definition S_decode :: "instruction_type \<Rightarrow> S" where
  "S_decode raw = \<lparr>s_opcode = opcode_of raw, s_out = access_of 16 raw\<rparr>"

definition D_encode :: "D \<Rightarrow> instruction_type" where
  "D_encode i = ucast (d_opcode i) OR access_at 16 (d_out i) OR access_at 32 (d_in i)"

definition D_decode :: "instruction_type \<Rightarrow> D" where
  "D_decode raw =
     \<lparr>d_opcode = opcode_of raw, d_out = access_of 16 raw, d_in = access_of 32 raw\<rparr>"

definition T_encode :: "T \<Rightarrow> instruction_type" where
  "T_encode i =
     ucast (t_opcode i) OR access_at 16 (t_out i) OR access_at 32 (t_lhs i)
       OR access_at 48 (t_rhs i)"

definition T_decode :: "instruction_type \<Rightarrow> T" where
  "T_decode raw =
     \<lparr>t_opcode = opcode_of raw, t_out = access_of 16 raw, t_lhs = access_of 32 raw,
      t_rhs = access_of 48 raw\<rparr>"

text \<open>F: the 32-bit immediate is the upper half of the word.\<close>

definition F_encode :: "F \<Rightarrow> instruction_type" where
  "F_encode i =
     ucast (f_opcode i) OR access_at 16 (f_out i) OR push_bit 32 (ucast (f_immediate i))"

definition F_decode :: "instruction_type \<Rightarrow> F" where
  "F_decode raw =
     \<lparr>f_opcode = opcode_of raw, f_out = access_of 16 raw,
      f_immediate = ucast (drop_bit 32 raw)\<rparr>"

text \<open>
  E: the low 32 bits of the 36-bit immediate are the upper half of the word, its top
  four bits fill the spare nibble of the access field (bits 28 to 31).
\<close>

definition E_encode :: "E \<Rightarrow> instruction_type" where
  "E_encode i =
     (let high = take_bit 4 (drop_bit 32 (e_immediate i));
          low = take_bit 32 (e_immediate i)
      in ucast (e_opcode i) OR access_at 16 (e_out i) OR push_bit 28 high
           OR push_bit 32 low)"

definition E_decode :: "instruction_type \<Rightarrow> E" where
  "E_decode raw =
     (let high = push_bit 32 (take_bit 4 (drop_bit 28 raw));
          low = drop_bit 32 raw
      in \<lparr>e_opcode = opcode_of raw, e_out = access_of 16 raw, e_immediate = high OR low\<rparr>)"

text \<open>
  R: the low 16 bits of the 24-bit immediate are the top 16 bits of the word, the next
  two nibbles fill the spare nibbles of the two access fields (bits 44 to 47 and bits
  28 to 31).
\<close>

definition R_encode :: "R \<Rightarrow> instruction_type" where
  "R_encode i =
     (let imm = (ucast (r_immediate i) :: 64 word);
          low_short = take_bit 16 imm;
          low_nibble = take_bit 4 (drop_bit 16 imm);
          high_nibble = take_bit 4 (drop_bit 20 imm)
      in ucast (r_opcode i) OR access_at 16 (r_out i) OR access_at 32 (r_in i)
           OR push_bit 48 low_short OR push_bit 44 low_nibble OR push_bit 28 high_nibble)"

definition R_decode :: "instruction_type \<Rightarrow> R" where
  "R_decode raw =
     (let low_short = (ucast (drop_bit 48 raw) :: 32 word);
          low_nibble = (ucast (take_bit 4 (drop_bit 44 raw)) :: 32 word);
          high_nibble = (ucast (take_bit 4 (drop_bit 28 raw)) :: 32 word)
      in \<lparr>r_opcode = opcode_of raw, r_out = access_of 16 raw, r_in = access_of 32 raw,
          r_immediate = low_short OR push_bit 16 low_nibble OR push_bit 20 high_nibble\<rparr>)"

section \<open>The load-immediate decomposition (\<^verbatim>\<open>tools/asm.cpp\<close>)\<close>

text \<open>
  \<^verbatim>\<open>to_loading_parts_unsigned\<close>: the value is split into its high 36 bits and the low
  28 bits; the low part is returned as it is when it fits 24 bits, and as
  \<open>base * 16 + remainder\<close> otherwise. The result is the nested pair of the source,
  \<open>(high_part, ((base, multiplier), remainder))\<close>, with 32-bit components.
\<close>

definition LOW_24 :: "64 word" where "LOW_24 = 0x0000000000ffffff"
definition HIGH_36 :: "64 word" where "HIGH_36 = 0xfffffffff0000000"

definition to_loading_parts_unsigned ::
  "64 word \<Rightarrow> 64 word \<times> ((32 word \<times> 32 word) \<times> 32 word)" where
  "to_loading_parts_unsigned v =
     (let high_part = drop_bit 28 (v AND HIGH_36);
          low_part = (ucast (v AND NOT HIGH_36) :: 32 word)
      in if ucast low_part AND LOW_24 = (ucast low_part :: 64 word)
         then (high_part, ((low_part, 0), 0))
         else
           let multiplier = (16 :: 32 word);
               remainder = low_part mod multiplier;
               base = (low_part - remainder) div multiplier
           in (high_part, ((base, multiplier), remainder)))"

text \<open>
  \<^verbatim>\<open>op_li\<close>, the expansion of the \<open>li\<close> pseudo-instruction into destination
  register 1, with registers 2 and 3 as temporaries. The source writes the words
  through a pointer it advances; the model returns them as a list. The overload for
  \<^verbatim>\<open>uint64_t\<close> uses LUIU and ADDIU, the overload for \<^verbatim>\<open>int64_t\<close> (whose argument
  is converted to \<^verbatim>\<open>uint64_t\<close> for the decomposition) uses LUI and ADDI.
\<close>

definition op_li_with :: "opcode_type \<Rightarrow> opcode_type \<Rightarrow> 64 word \<Rightarrow> instruction_type list" where
  "op_li_with lui addi v =
     (let parts = to_loading_parts_unsigned v;
          base = fst (fst (snd parts));
          multiplier = snd (fst (snd parts));
          remainder = snd (snd parts)
      in (if fst parts \<noteq> 0
          then [E_encode \<lparr>e_opcode = GREEDY OR lui, e_out = make_local 1,
                          e_immediate = fst parts\<rparr>]
          else [])
         @ (if multiplier \<noteq> 0
            then [R_encode \<lparr>r_opcode = GREEDY OR addi, r_out = make_local 2,
                            r_in = make_void, r_immediate = base\<rparr>,
                  R_encode \<lparr>r_opcode = GREEDY OR addi, r_out = make_local 3,
                            r_in = make_void, r_immediate = multiplier\<rparr>,
                  T_encode \<lparr>t_opcode = GREEDY OR MUL, t_out = make_local 2,
                            t_lhs = make_local 2, t_rhs = make_local 3\<rparr>,
                  R_encode \<lparr>r_opcode = GREEDY OR addi, r_out = make_local 3,
                            r_in = make_void, r_immediate = remainder\<rparr>,
                  T_encode \<lparr>t_opcode = GREEDY OR ADD, t_out = make_local 2,
                            t_lhs = make_local 2, t_rhs = make_local 3\<rparr>,
                  T_encode \<lparr>t_opcode = ADD, t_out = make_local 1,
                            t_lhs = make_local 1, t_rhs = make_local 2\<rparr>]
            else [R_encode \<lparr>r_opcode = addi, r_out = make_local 1,
                            r_in = make_void, r_immediate = base\<rparr>]))"

definition op_li_unsigned :: "64 word \<Rightarrow> instruction_type list" where
  "op_li_unsigned v = op_li_with LUIU ADDIU v"

definition op_li_signed :: "64 word \<Rightarrow> instruction_type list" where
  "op_li_signed v = op_li_with LUI ADDI v"

section \<open>The interpreter (\<^verbatim>\<open>tools/vm.cpp\<close>)\<close>

text \<open>
  \<^verbatim>\<open>struct Value\<close>: a type tag and a \<^verbatim>\<open>std::variant<uint64_t, void*>\<close>. A
  value-initialised \<open>Value\<close> has tag \<open>Void\<close> and the 64-bit alternative holding 0.
\<close>

datatype Unboxed_type =
  Void | Byte | Integer_signed | Integer_unsigned | Float_single | Float_double

datatype payload = U64 "64 word" | Boxed "64 word"

record Value =
  type_of_unboxed :: Unboxed_type
  value_of :: payload

definition is_boxed :: "Value \<Rightarrow> bool" where
  "is_boxed v = (case value_of v of Boxed _ \<Rightarrow> True | U64 _ \<Rightarrow> False)"

definition is_void :: "Value \<Rightarrow> bool" where
  "is_void v = (\<not> is_boxed v \<and> type_of_unboxed v = Void)"

definition Value_init :: Value where
  "Value_init = \<lparr>type_of_unboxed = Void, value_of = U64 0\<rparr>"

text \<open>\<^verbatim>\<open>std::vector<Value>(256)\<close>, the register file \<open>main\<close> creates.\<close>

definition clean_registers :: "Value list" where
  "clean_registers = replicate 256 Value_init"

text \<open>
  What ends an executor otherwise than by returning: \<^verbatim>\<open>std::vector::at\<close> outside the
  vector and \<^verbatim>\<open>std::get<uint64_t>\<close> on a boxed slot, which throw and are caught
  nowhere, and two things that C++ leaves undefined: a read of the text outside the
  loaded words and an integer division by zero.
\<close>

datatype vm_error = Out_of_range | Bad_variant_access | Bad_fetch | Undefined_division

definition at :: "Value list \<Rightarrow> 8 word \<Rightarrow> vm_error + Value" where
  "at registers i =
     (if unat i < length registers then Inr (registers ! unat i) else Inl Out_of_range)"

definition get_uint64 :: "Value \<Rightarrow> vm_error + 64 word" where
  "get_uint64 v = (case value_of v of U64 x \<Rightarrow> Inr x | Boxed _ \<Rightarrow> Inl Bad_variant_access)"

definition store :: "Value list \<Rightarrow> 8 word \<Rightarrow> Unboxed_type \<Rightarrow> 64 word \<Rightarrow> Value list" where
  "store registers i t x = registers[unat i := \<lparr>type_of_unboxed = t, value_of = U64 x\<rparr>]"

text \<open>
  ADD, SUB and MUL: the three registers are looked up with \<open>at\<close>, the result takes the
  tag of the left-hand side, and the payloads are combined as unsigned 64-bit numbers,
  wrapping around.
\<close>

definition and_then :: "'e + 'a \<Rightarrow> ('a \<Rightarrow> 'e + 'b) \<Rightarrow> 'e + 'b" where
  "and_then r f = (case r of Inl e \<Rightarrow> Inl e | Inr x \<Rightarrow> f x)"

definition execute_arith ::
  "(64 word \<Rightarrow> 64 word \<Rightarrow> 64 word) \<Rightarrow> Value list \<Rightarrow> T \<Rightarrow> vm_error + Value list" where
  "execute_arith f registers op =
     and_then (at registers (ra_index (t_out op))) (\<lambda>out.
     and_then (at registers (ra_index (t_lhs op))) (\<lambda>lhs.
     and_then (at registers (ra_index (t_rhs op))) (\<lambda>rhs.
     and_then (get_uint64 lhs) (\<lambda>l.
     and_then (get_uint64 rhs) (\<lambda>r.
       Inr (store registers (ra_index (t_out op)) (type_of_unboxed lhs) (f l r)))))))"

definition execute_ADD :: "Value list \<Rightarrow> T \<Rightarrow> vm_error + Value list" where
  "execute_ADD = execute_arith (\<lambda>l r. l + r)"

definition execute_SUB :: "Value list \<Rightarrow> T \<Rightarrow> vm_error + Value list" where
  "execute_SUB = execute_arith (\<lambda>l r. l - r)"

definition execute_MUL :: "Value list \<Rightarrow> T \<Rightarrow> vm_error + Value list" where
  "execute_MUL = execute_arith (\<lambda>l r. l * r)"

text \<open>
  DIV has the shape of the other three and divides without looking at the divisor:
  the source has no check and raises nothing of its own. Where the divisor is 0 the
  C++ quotient is undefined, and the model says so instead of taking the quotient of
  HOL, which is 0.
\<close>

definition execute_DIV :: "Value list \<Rightarrow> T \<Rightarrow> vm_error + Value list" where
  "execute_DIV registers op =
     and_then (at registers (ra_index (t_out op))) (\<lambda>out.
     and_then (at registers (ra_index (t_lhs op))) (\<lambda>lhs.
     and_then (at registers (ra_index (t_rhs op))) (\<lambda>rhs.
     and_then (get_uint64 lhs) (\<lambda>l.
     and_then (get_uint64 rhs) (\<lambda>r.
       if r = 0 then Inl Undefined_division
       else Inr (store registers (ra_index (t_out op)) (type_of_unboxed lhs) (l div r)))))))"

definition execute_DELETE :: "Value list \<Rightarrow> S \<Rightarrow> vm_error + Value list" where
  "execute_DELETE registers op =
     and_then (at registers (ra_index (s_out op))) (\<lambda>target.
       Inr (store registers (ra_index (s_out op)) Void 0))"

definition execute_LUI :: "Value list \<Rightarrow> E \<Rightarrow> vm_error + Value list" where
  "execute_LUI registers op =
     and_then (at registers (ra_index (e_out op))) (\<lambda>v.
       Inr (store registers (ra_index (e_out op)) Integer_signed (push_bit 28 (e_immediate op))))"

definition execute_LUIU :: "Value list \<Rightarrow> E \<Rightarrow> vm_error + Value list" where
  "execute_LUIU registers op =
     and_then (at registers (ra_index (e_out op))) (\<lambda>v.
       Inr (store registers (ra_index (e_out op)) Integer_unsigned (push_bit 28 (e_immediate op))))"

text \<open>
  ADDI and ADDIU: the base is 0 when the input access is void and the 64-bit payload
  of the input register otherwise; the executors differ in the tag they write.
\<close>

definition addi_base :: "Value list \<Rightarrow> Register_access \<Rightarrow> vm_error + 64 word" where
  "addi_base registers a =
     (if is_void_access a then Inr 0
      else and_then (at registers (ra_index a)) get_uint64)"

definition execute_ADDI :: "Value list \<Rightarrow> R \<Rightarrow> vm_error + Value list" where
  "execute_ADDI registers op =
     and_then (at registers (ra_index (r_out op))) (\<lambda>out.
     and_then (addi_base registers (r_in op)) (\<lambda>base.
       Inr (store registers (ra_index (r_out op)) Integer_signed (base + ucast (r_immediate op)))))"

definition execute_ADDIU :: "Value list \<Rightarrow> R \<Rightarrow> vm_error + Value list" where
  "execute_ADDIU registers op =
     and_then (at registers (ra_index (r_out op))) (\<lambda>out.
     and_then (addi_base registers (r_in op)) (\<lambda>base.
       Inr (store registers (ra_index (r_out op)) Integer_unsigned (base + ucast (r_immediate op)))))"

text \<open>
  EBREAK walks the register file and prints one line for every slot that is not void:
  \<^verbatim>\<open><boxed>\<close> for a boxed slot, and the payload after a two-letter tag otherwise.
  The model keeps each line as the slot's index and what is printed after it, and
  returns the register file with the dump.
\<close>

datatype dump_line =
  Dump_boxed | Dump_nothing | Dump_by "8 word" | Dump_is "64 word" | Dump_iu "64 word"
  | Dump_fl "64 word" | Dump_db "64 word"

definition dump_of :: "Value \<Rightarrow> dump_line" where
  "dump_of each =
     (case value_of each of
        Boxed _ \<Rightarrow> Dump_boxed
      | U64 x \<Rightarrow>
          (case type_of_unboxed each of
             Void \<Rightarrow> Dump_nothing
           | Byte \<Rightarrow> Dump_by (ucast x)
           | Integer_signed \<Rightarrow> Dump_is x
           | Integer_unsigned \<Rightarrow> Dump_iu x
           | Float_single \<Rightarrow> Dump_fl x
           | Float_double \<Rightarrow> Dump_db x))"

fun dump_from :: "nat \<Rightarrow> Value list \<Rightarrow> (nat \<times> dump_line) list" where
  "dump_from i [] = []"
| "dump_from i (each # rest) =
     (if is_void each then dump_from (Suc i) rest
      else (i, dump_of each) # dump_from (Suc i) rest)"

definition execute_EBREAK :: "Value list \<Rightarrow> Value list \<times> (nat \<times> dump_line) list" where
  "execute_EBREAK registers = (registers, dump_from 0 registers)"

text \<open>
  The dispatcher \<^verbatim>\<open>execute(registers, ip)\<close>. The instruction pointer is an index into
  the text; the result is the register file with the next instruction pointer, \<open>None\<close>
  standing for the null pointer that HALT and the unimplemented instructions return.
  A format or an opcode that no \<^verbatim>\<open>case\<close> of a \<^verbatim>\<open>switch\<close> without \<^verbatim>\<open>default\<close>
  names falls through to \<^verbatim>\<open>return (ip + 1)\<close>.
\<close>

definition fetch :: "instruction_type list \<Rightarrow> nat \<Rightarrow> vm_error + instruction_type" where
  "fetch text ip = (if ip < length text then Inr (text ! ip) else Inl Bad_fetch)"

definition continue_at ::
  "nat \<Rightarrow> vm_error + Value list \<Rightarrow> vm_error + (Value list \<times> nat option)" where
  "continue_at ip r = and_then r (\<lambda>registers. Inr (registers, Some (ip + 1)))"

definition execute ::
  "Value list \<Rightarrow> instruction_type list \<Rightarrow> nat \<Rightarrow> vm_error + (Value list \<times> nat option)" where
  "execute registers text ip =
     and_then (fetch text ip) (\<lambda>raw.
      let opcode = (ucast (raw AND ucast OPCODE_MASK) :: opcode_type);
          format = opcode AND FORMAT_MASK
      in if format = FORMAT_T then
           (let instruction = T_decode raw
            in if opcode = ADD then continue_at ip (execute_ADD registers instruction)
               else if opcode = MUL then continue_at ip (execute_MUL registers instruction)
               else Inr (registers, None))
         else if format = FORMAT_S then
           (let instruction = S_decode raw
            in if opcode = DELETE then continue_at ip (execute_DELETE registers instruction)
               else Inr (registers, None))
         else if format = FORMAT_E then
           (let instruction = E_decode raw
            in if opcode = LUI then continue_at ip (execute_LUI registers instruction)
               else if opcode = LUIU then continue_at ip (execute_LUIU registers instruction)
               else Inr (registers, Some (ip + 1)))
         else if format = FORMAT_R then
           (let instruction = R_decode raw
            in if opcode = ADDI then continue_at ip (execute_ADDI registers instruction)
               else if opcode = ADDIU then continue_at ip (execute_ADDIU registers instruction)
               else Inr (registers, Some (ip + 1)))
         else if format = FORMAT_N then
           (if opcode = NOOP then Inr (registers, Some (ip + 1))
            else if opcode = HALT then Inr (registers, None)
            else if opcode = EBREAK
              then Inr (fst (execute_EBREAK registers), Some (ip + 1))
            else Inr (registers, Some (ip + 1)))
         else if format = FORMAT_D \<or> format = FORMAT_F then Inr (registers, None)
         else Inr (registers, Some (ip + 1)))"

text \<open>
  The scheduling trace. \<open>run\<close> writes \<^verbatim>\<open>cycle at\<close>, \<^verbatim>\<open>bundle\<close> or \<^verbatim>\<open>single\<close> with the
  preemption counter, \<^verbatim>\<open>halted\<close> and \<^verbatim>\<open>preempted after\<close> to the trace stream; the
  model keeps these lines as events and adds \<open>Executed ip\<close> for every call of the
  dispatcher, in the order in which they happen.
\<close>

datatype log =
  Executed nat | Cycle_at nat | Bundle nat | Single nat | Halted | Preempted nat

definition is_greedy :: "instruction_type \<Rightarrow> bool" where
  "is_greedy instruction = (instruction AND ucast GREEDY \<noteq> 0)"

text \<open>
  \<^verbatim>\<open>run_instruction\<close>: the \<^verbatim>\<open>do ... while\<close> loop that keeps dispatching as long as
  the word just executed carries the greedy bit and the dispatcher did not return the
  null pointer.
\<close>

function run_instruction ::
  "log list \<Rightarrow> Value list \<Rightarrow> instruction_type list \<Rightarrow> nat
     \<Rightarrow> log list \<times> (vm_error + (Value list \<times> nat option))" where
  "run_instruction trace registers text ip =
     (case fetch text ip of
        Inl e \<Rightarrow> (trace, Inl e)
      | Inr instruction \<Rightarrow>
          (case execute registers text ip of
             Inl e \<Rightarrow> (trace @ [Executed ip], Inl e)
           | Inr (registers', None) \<Rightarrow> (trace @ [Executed ip], Inr (registers', None))
           | Inr (registers', Some ip') \<Rightarrow>
               if is_greedy instruction
               then run_instruction (trace @ [Executed ip]) registers' text ip'
               else (trace @ [Executed ip], Inr (registers', Some ip'))))"
  by pat_completeness auto
termination
proof (relation "measure (\<lambda>(trace, registers, text, ip). length text - ip)")
  show "wf (measure (\<lambda>(trace, registers, text, ip). length text - ip))"
    by simp
next
  fix trace :: "log list" and registers prog ip instruction r registers' p ip'
  assume f: "fetch prog ip = Inr instruction"
    and e: "execute registers prog ip = Inr r" "(registers', p) = r" "p = Some ip'"
  from f have "ip < length prog"
    by (simp add: fetch_def split: if_splits)
  moreover from e f have "ip' = ip + 1"
    by (auto simp add: execute_def and_then_def continue_at_def Let_def
        split: if_splits sum.splits)
  ultimately show "((trace @ [Executed ip], registers', prog, ip'), (trace, registers, prog, ip))
      \<in> measure (\<lambda>(trace, registers, text, ip). length text - ip)"
    by simp
qed

declare run_instruction.simps [simp del]

text \<open>
  \<^verbatim>\<open>run\<close>. \<open>cycle\<close> is the inner \<^verbatim>\<open>for\<close> loop over the preemption counter \<open>i\<close>, \<open>run\<close>
  the outer \<^verbatim>\<open>while\<close> loop; \<open>ip_begin\<close> is index 0 and \<open>ip_end\<close> the length of the
  text, as \<open>main\<close> passes them.
\<close>

definition PREEMPTION_THRESHOLD :: nat where
  "PREEMPTION_THRESHOLD = 2"

function cycle ::
  "log list \<Rightarrow> Value list \<Rightarrow> instruction_type list \<Rightarrow> nat \<Rightarrow> nat
     \<Rightarrow> log list \<times> (vm_error + (Value list \<times> nat))" where
  "cycle trace registers text i ip =
     (if i < PREEMPTION_THRESHOLD \<and> ip \<noteq> length text then
        (case fetch text ip of
           Inl e \<Rightarrow> (trace, Inl e)
         | Inr instruction \<Rightarrow>
             (let greedy = is_greedy instruction;
                  bundle_ip = ip
              in case run_instruction (trace @ [if greedy then Bundle i else Single i])
                        registers text ip of
                   (trace', Inl e) \<Rightarrow> (trace', Inl e)
                 | (trace', Inr (registers', r)) \<Rightarrow>
                     (let ip' = (case r of None \<Rightarrow> length text | Some p \<Rightarrow> p);
                          i' = (if greedy \<and> ip' \<noteq> length text
                                then i + ((ip' - bundle_ip) - 1) else i)
                      in cycle trace' registers' text (i' + 1) ip')))
      else (trace, Inr (registers, ip)))"
  by pat_completeness auto
termination
proof -
  have nxt: "p' = p + 1 \<and> p < length prg"
    if "execute regs prg p = Inr (regs', Some p')" for regs prg p regs' p'
    using that
    by (auto simp add: execute_def fetch_def and_then_def continue_at_def Let_def
        split: if_splits sum.splits)
  have adv: "ip0 < ip1 \<and> ip1 \<le> length prog0"
    if "run_instruction tr0 regs0 prog0 ip0 = (tr1, Inr (regs1, r0))"
      and "ip1 = (case r0 of None \<Rightarrow> length prog0 | Some p \<Rightarrow> p)"
    for tr0 regs0 prog0 ip0 tr1 regs1 r0 ip1
    using that
  proof (induction tr0 regs0 prog0 ip0 rule: run_instruction.induct)
    case (1 tr regs prg p)
    from "1.prems" obtain w regs2 q where w: "fetch prg p = Inr w"
      and x: "execute regs prg p = Inr (regs2, q)"
      by (subst (asm) run_instruction.simps) (auto split: sum.splits)
    from w have lt: "p < length prg"
      by (simp add: fetch_def split: if_splits)
    show ?case
    proof (cases "\<exists>p'. q = Some p' \<and> is_greedy w")
      case True
      then obtain p' where q: "q = Some p'" and g: "is_greedy w"
        by blast
      from "1.prems" w x q g
      have "run_instruction (tr @ [Executed p]) regs2 prg p' = (tr1, Inr (regs1, r0))"
        by (subst (asm) run_instruction.simps) simp
      from "1.IH" [OF w x refl q g this "1.prems"(2)] nxt [OF x [unfolded q]]
      show ?thesis by simp
    next
      case False
      with "1.prems" w x lt nxt [of regs prg p regs2] show ?thesis
        by (subst (asm) run_instruction.simps) (auto split: option.splits if_splits)
    qed
  qed
  show ?thesis
    apply (relation "measure (\<lambda>(trace, registers, text, i, ip). length text - ip)")
     apply simp
    apply (auto dest!: adv [OF sym refl] simp add: diff_less_mono2)
    done
qed

declare cycle.simps [simp del]

function run ::
  "log list \<Rightarrow> Value list \<Rightarrow> instruction_type list \<Rightarrow> nat \<Rightarrow> log list \<times> (vm_error + Value list)" where
  "run trace registers text ip =
     (if ip \<noteq> length text then
        (let ip_before = ip
         in case cycle (trace @ [Cycle_at (ip * 8)]) registers text 0 ip of
              (trace', Inl e) \<Rightarrow> (trace', Inl e)
            | (trace', Inr (registers', ip')) \<Rightarrow>
                if ip' = length text then (trace' @ [Halted], Inr registers')
                else run (trace' @ [Preempted (ip' - ip_before)]) registers' text ip')
      else (trace, Inr registers))"
  by pat_completeness auto
termination
proof -
  have nxt: "p' = p + 1 \<and> p < length prg"
    if "execute regs prg p = Inr (regs', Some p')" for regs prg p regs' p'
    using that
    by (auto simp add: execute_def fetch_def and_then_def continue_at_def Let_def
        split: if_splits sum.splits)
  have adv: "ip0 < ip1 \<and> ip1 \<le> length prog0"
    if "run_instruction tr0 regs0 prog0 ip0 = (tr1, Inr (regs1, r0))"
      and "ip1 = (case r0 of None \<Rightarrow> length prog0 | Some p \<Rightarrow> p)"
    for tr0 regs0 prog0 ip0 tr1 regs1 r0 ip1
    using that
  proof (induction tr0 regs0 prog0 ip0 rule: run_instruction.induct)
    case (1 tr regs prg p)
    from "1.prems" obtain w regs2 q where w: "fetch prg p = Inr w"
      and x: "execute regs prg p = Inr (regs2, q)"
      by (subst (asm) run_instruction.simps) (auto split: sum.splits)
    from w have lt: "p < length prg"
      by (simp add: fetch_def split: if_splits)
    show ?case
    proof (cases "\<exists>p'. q = Some p' \<and> is_greedy w")
      case True
      then obtain p' where q: "q = Some p'" and g: "is_greedy w"
        by blast
      from "1.prems" w x q g
      have "run_instruction (tr @ [Executed p]) regs2 prg p' = (tr1, Inr (regs1, r0))"
        by (subst (asm) run_instruction.simps) simp
      from "1.IH" [OF w x refl q g this "1.prems"(2)] nxt [OF x [unfolded q]]
      show ?thesis by simp
    next
      case False
      with "1.prems" w x lt nxt [of regs prg p regs2] show ?thesis
        by (subst (asm) run_instruction.simps) (auto split: option.splits if_splits)
    qed
  qed
  have cyc: "ip0 \<le> ip1 \<and> ip1 \<le> max ip0 (length prog0)
      \<and> (i0 < PREEMPTION_THRESHOLD \<and> ip0 \<noteq> length prog0 \<longrightarrow> ip0 < ip1)"
    if "cycle tr0 regs0 prog0 i0 ip0 = (tr1, Inr (regs1, ip1))"
    for tr0 regs0 prog0 i0 ip0 tr1 regs1 ip1
    using that
  proof (induction tr0 regs0 prog0 i0 ip0 rule: cycle.induct)
    case (1 tr regs prg i p)
    show ?case
    proof (cases "i < PREEMPTION_THRESHOLD \<and> p \<noteq> length prg")
      case False
      with "1.prems" show ?thesis
        by (subst (asm) cycle.simps) auto
    next
      case True
      from "1.prems" True obtain w where w: "fetch prg p = Inr w"
        by (subst (asm) cycle.simps) (auto split: sum.splits)
      from "1.prems" True w obtain tr2 regs2 q where
        x: "run_instruction (tr @ [if is_greedy w then Bundle i else Single i]) regs prg p
             = (tr2, Inr (regs2, q))"
        by (subst (asm) cycle.simps) (auto simp add: Let_def split: sum.splits prod.splits)
      define p' where "p' = (case q of None \<Rightarrow> length prg | Some a \<Rightarrow> a)"
      define i' where "i' = (if is_greedy w \<and> p' \<noteq> length prg then i + (p' - p - 1) else i)"
      from "1.prems" True w x have rec: "cycle tr2 regs2 prg (i' + 1) p' = (tr1, Inr (regs1, ip1))"
        by (subst (asm) cycle.simps) (auto simp add: Let_def p'_def i'_def split: if_splits)
      have "p' \<le> ip1 \<and> ip1 \<le> max p' (length prg)"
        using "1.IH" [OF True w refl refl x [symmetric] refl refl p'_def i'_def rec] by simp
      moreover have "p < p' \<and> p' \<le> length prg"
        using adv [OF x p'_def] .
      ultimately show ?thesis by auto
    qed
  qed
  show ?thesis
    apply (relation "measure (\<lambda>(trace, registers, text, ip). length text - ip)")
     apply simp
    apply (auto dest!: cyc [OF sym] simp add: diff_less_mono2 PREEMPTION_THRESHOLD_def)
    done
qed

declare run.simps [simp del]

section \<open>The assembler stages (\<^verbatim>\<open>tools/exec/asm.cpp\<close>)\<close>

text \<open>
  Modelled from the spec: what the assembler's input types declare
  (\<^verbatim>\<open>viua/libs/lexer.h\<close>, \<^verbatim>\<open>viua/libs/parser.h\<close> and
  \<^verbatim>\<open>viua/libs/errors/compile_time.h\<close> are not among the sources). A lexeme has its
  text and its offset in the source; a top-level node is a function definition or a
  label definition, each with a name and an attribute list; a compile-time error has a
  cause, the lexeme it points at, a message, further lexemes and notes.
\<close>

record Lexeme =
  lexeme_text :: string
  lexeme_offset :: nat

datatype Node =
  Fn_def (node_name: Lexeme) (attributes: "Lexeme list")
  | Label_def (node_name: Lexeme) (attributes: "Lexeme list")

definition attr :: "Node \<Rightarrow> string \<Rightarrow> Lexeme option" where
  "attr node key = find (\<lambda>a. lexeme_text a = key) (attributes node)"

definition has_attr :: "Node \<Rightarrow> string \<Rightarrow> bool" where
  "has_attr node key = (attr node key \<noteq> None)"

datatype Cause = Duplicated_entry_point | Invalid_operand

record Error =
  cause :: Cause
  main_lexeme :: Lexeme
  message :: string
  detail_lexemes :: "Lexeme list"
  error_notes :: "string list"

text \<open>
  What ends a stage otherwise than by returning: a diagnostic handed to
  \<^verbatim>\<open>display_error_and_exit\<close> (the process exits before anything is written), a
  \<^verbatim>\<open>static_cast\<close> of a node to \<^verbatim>\<open>Fn_def\<close> that is not one (undefined in C++), and
  \<^verbatim>\<open>std::vector::at\<close> outside the text.
\<close>

datatype asm_error = Fatal Error | Not_a_Fn_def | Text_out_of_range

definition as_Fn_def :: "Node \<Rightarrow> asm_error + Node" where
  "as_Fn_def node = (case node of Fn_def _ _ \<Rightarrow> Inr node | Label_def _ _ \<Rightarrow> Inl Not_a_Fn_def)"

text \<open>
  \<^verbatim>\<open>stage::find_entry_point\<close>: the loop visits every node, whatever its kind, and
  casts the ones that have the attribute to \<^verbatim>\<open>Fn_def\<close>.
\<close>

fun find_entry_point_from :: "Lexeme option \<Rightarrow> Node list \<Rightarrow> asm_error + Lexeme option" where
  "find_entry_point_from entry_point_fn [] = Inr entry_point_fn"
| "find_entry_point_from entry_point_fn (each # nodes) =
     (if has_attr each ''entry_point'' then
        (case entry_point_fn of
           Some first_fn \<Rightarrow>
             and_then (as_Fn_def each) (\<lambda>dup.
               Inl (Fatal \<lparr>cause = Duplicated_entry_point, main_lexeme = node_name dup,
                            message = lexeme_text (node_name dup),
                            detail_lexemes = [the (attr dup ''entry_point'')],
                            error_notes = [''first entry point was: '' @ lexeme_text first_fn]\<rparr>))
         | None \<Rightarrow>
             and_then (as_Fn_def each) (\<lambda>fn.
               find_entry_point_from (Some (node_name fn)) nodes))
      else find_entry_point_from entry_point_fn nodes)"

definition find_entry_point :: "Node list \<Rightarrow> asm_error + Lexeme option" where
  "find_entry_point nodes = find_entry_point_from None nodes"

text \<open>
  Relocations. \<^verbatim>\<open>Elf64_Rel\<close> and the macros \<^verbatim>\<open>ELF64_R_INFO\<close>, \<^verbatim>\<open>ELF64_R_SYM\<close> and
  \<^verbatim>\<open>ELF64_R_TYPE\<close> are those of the system's \<^verbatim>\<open>elf.h\<close>: the symbol index is the
  upper and the relocation type the lower half of \<open>r_info\<close>.

  Modelled from the spec: the relocation kinds of \<^verbatim>\<open>viua/arch/elf.h\<close> (not among the
  sources); only that the two kinds have different numbers matters below.
\<close>

record Elf64_Rel =
  r_offset :: "64 word"
  r_info :: "64 word"

datatype R_VIUA = R_VIUA_NONE | R_VIUA_JUMP_SLOT | R_VIUA_OBJECT

definition R_VIUA_code :: "R_VIUA \<Rightarrow> 8 word" where
  "R_VIUA_code k = (case k of R_VIUA_NONE \<Rightarrow> 0 | R_VIUA_JUMP_SLOT \<Rightarrow> 1 | R_VIUA_OBJECT \<Rightarrow> 2)"

definition ELF64_R_INFO :: "32 word \<Rightarrow> 8 word \<Rightarrow> 64 word" where
  "ELF64_R_INFO symbol kind = push_bit 32 (ucast symbol) + ucast kind"

definition ELF64_R_SYM :: "64 word \<Rightarrow> 64 word" where
  "ELF64_R_SYM i = drop_bit 32 i"

definition ELF64_R_TYPE :: "64 word \<Rightarrow> 64 word" where
  "ELF64_R_TYPE i = i AND 0xffffffff"

text \<open>
  \<^verbatim>\<open>emit_bytecode\<close>, as far as the text goes: a HALT at word 0, then the words of
  the instructions of every function definition, in the order of the nodes.
  \<^verbatim>\<open>viua::libs::stage::emit_instruction\<close> is not among the sources, so that a function
  is given here by the words it returns for the instructions of the function; the
  update of the symbol table (address and size of each function) is left out.
\<close>

definition emit_bytecode :: "instruction_type list list \<Rightarrow> instruction_type list" where
  "emit_bytecode bodies = N_encode \<lparr>n_opcode = HALT\<rparr> # concat bodies"

text \<open>
  \<^verbatim>\<open>stage::make_reloc_table\<close>. For a CALL or an ATOM at index \<open>i\<close> the two words
  before it are read with \<^verbatim>\<open>text.at(i - 2)\<close> and \<^verbatim>\<open>text.at(i - 1)\<close>; for \<open>i < 2\<close> the
  unsigned \<open>i - 2\<close> wraps around and \<open>at\<close> throws. The 64-bit value \<open>hi | lo\<close> is cast
  to \<^verbatim>\<open>uint32_t\<close> before it becomes the symbol index.
\<close>

definition symtab_entry_index :: "instruction_type list \<Rightarrow> nat \<Rightarrow> 32 word" where
  "symtab_entry_index text i =
     (let hi = push_bit 32 (ucast (f_immediate (F_decode (text ! (i - 2)))) :: 64 word);
          lo = f_immediate (F_decode (text ! (i - 1)))
      in ucast (hi OR ucast lo))"

definition reloc_for :: "instruction_type list \<Rightarrow> nat \<Rightarrow> R_VIUA \<Rightarrow> asm_error + Elf64_Rel" where
  "reloc_for text i kind =
     (if i < 2 then Inl Text_out_of_range
      else Inr \<lparr>r_offset = of_nat ((i - 2) * 8),
                r_info = ELF64_R_INFO (symtab_entry_index text i) (R_VIUA_code kind)\<rparr>)"

fun make_reloc_table_from ::
  "instruction_type list \<Rightarrow> nat list \<Rightarrow> Elf64_Rel list \<Rightarrow> asm_error + Elf64_Rel list" where
  "make_reloc_table_from text [] reloc_table = Inr reloc_table"
| "make_reloc_table_from text (i # rest) reloc_table =
     (let each = text ! i;
          op = (ucast (each AND ucast OPCODE_MASK) :: opcode_type)
      in if op = CALL then
           and_then (reloc_for text i R_VIUA_JUMP_SLOT) (\<lambda>rel.
             make_reloc_table_from text rest (reloc_table @ [rel]))
         else if op = ATOM then
           and_then (reloc_for text i R_VIUA_OBJECT) (\<lambda>rel.
             make_reloc_table_from text rest (reloc_table @ [rel]))
         else make_reloc_table_from text rest reloc_table)"

definition make_reloc_table :: "instruction_type list \<Rightarrow> asm_error + Elf64_Rel list" where
  "make_reloc_table text = make_reloc_table_from text [0..<length text] []"

section \<open>The AA instruction (\<^verbatim>\<open>vm/ins/aa.cpp\<close>)\<close>

text \<open>
  Modelled from the spec: the process stack and the register proxies of
  \<^verbatim>\<open>viua/vm/ins.h\<close> (not among the sources). A stack belongs to a process, which
  owns the stack break and the list of recorded pointers; the last frame is the active
  one and holds the local registers, the parameters and the saved stack break.
  \<open>fetch_proxy\<close> looks a register up without changing anything, \<open>get_unsigned\<close> is
  \<^verbatim>\<open>get<uint64_t>()\<close>, which has a value only for an unboxed slot tagged unsigned, and
  \<open>save_proxy\<close> writes a slot of the active frame.
\<close>

record Pointer =
  ptr :: "64 word"

record Process =
  stack_break :: "64 word"
  pointers :: "Pointer list"

record Frame =
  local_registers :: "Value list"
  parameters :: "Value list"
  saved_sbrk :: "64 word"

record Stack =
  proc :: Process
  frames :: "Frame list"

record AA =
  aa_out :: Register_access
  aa_in :: Register_access
  aa_spec :: "8 word"

datatype abort_execution = Abort nat string

definition fetch_proxy :: "Stack \<Rightarrow> Register_access \<Rightarrow> nat \<Rightarrow> abort_execution + Value" where
  "fetch_proxy stack a ip =
     (if frames stack = [] then Inl (Abort ip ''no frame'')
      else
        let frame = last (frames stack);
            slots = (case ra_set a of
                       VOID \<Rightarrow> []
                     | LOCAL \<Rightarrow> local_registers frame
                     | PARAMETER \<Rightarrow> parameters frame)
        in if unat (ra_index a) < length slots then Inr (slots ! unat (ra_index a))
           else Inl (Abort ip ''cannot fetch register''))"

definition get_unsigned :: "Value \<Rightarrow> 64 word option" where
  "get_unsigned v =
     (case value_of v of
        U64 x \<Rightarrow> if type_of_unboxed v = Integer_unsigned then Some x else None
      | Boxed _ \<Rightarrow> None)"

definition save_proxy :: "Stack \<Rightarrow> Register_access \<Rightarrow> nat \<Rightarrow> Value \<Rightarrow> abort_execution + Stack" where
  "save_proxy stack a ip v =
     (if frames stack = [] then Inl (Abort ip ''no frame'')
      else
        let frame = last (frames stack);
            k = unat (ra_index a)
        in case ra_set a of
             VOID \<Rightarrow> Inl (Abort ip ''cannot save to void'')
           | LOCAL \<Rightarrow>
               if k < length (local_registers frame)
               then Inr (stack\<lparr>frames := butlast (frames stack)
                                  @ [frame\<lparr>local_registers := (local_registers frame)[k := v]\<rparr>]\<rparr>)
               else Inl (Abort ip ''cannot save register'')
           | PARAMETER \<Rightarrow>
               if k < length (parameters frame)
               then Inr (stack\<lparr>frames := butlast (frames stack)
                                  @ [frame\<lparr>parameters := (parameters frame)[k := v]\<rparr>]\<rparr>)
               else Inl (Abort ip ''cannot save register''))"

text \<open>
  \<^verbatim>\<open>execute(AA const op, Stack& stack, ip_type const ip)\<close>. The stack is changed in
  place and an exception leaves it as it is at the \<^verbatim>\<open>throw\<close>, so the model returns
  the stack together with the exception, if any. The spec calls what is written to the
  output register a pointer value and names no tag for it; the model stores it as an
  unsigned value.
\<close>

definition set_saved_sbrk :: "Stack \<Rightarrow> 64 word \<Rightarrow> Stack" where
  "set_saved_sbrk stack b =
     stack\<lparr>frames := butlast (frames stack) @ [(last (frames stack))\<lparr>saved_sbrk := b\<rparr>]\<rparr>"

definition execute_AA :: "AA \<Rightarrow> Stack \<Rightarrow> nat \<Rightarrow> abort_execution option \<times> Stack" where
  "execute_AA op stack ip =
     (case fetch_proxy stack (aa_in op) ip of
        Inl a \<Rightarrow> (Some a, stack)
      | Inr v \<Rightarrow>
          (case get_unsigned v of
             None \<Rightarrow> (Some (Abort ip ''invalid operand type for aa instruction''), stack)
           | Some size_read \<Rightarrow>
               (let pointer_address = stack_break (proc stack);
                    stack1 = stack\<lparr>proc := (proc stack)\<lparr>stack_break := pointer_address + size_read\<rparr>\<rparr>;
                    stack2 = set_saved_sbrk stack1 (stack_break (proc stack1))
                in case save_proxy stack2 (aa_out op) ip
                          \<lparr>type_of_unboxed = Integer_unsigned, value_of = U64 pointer_address\<rparr> of
                     Inl a \<Rightarrow> (Some a, stack2)
                   | Inr stack3 \<Rightarrow>
                       (None, stack3\<lparr>proc := (proc stack3)
                                 \<lparr>pointers := pointers (proc stack3) @ [\<lparr>ptr = pointer_address\<rparr>]\<rparr>\<rparr>))))"

section \<open>Notions and sample inputs of the theorems\<close>

text \<open>
  Atomicity of greedy bundles, read off the scheduling trace: whatever follows the
  execution of a greedy word \<open>j\<close> is the execution of the word \<open>j + 1\<close>, or \<open>Halted\<close>
  when the greedy word itself ended the run. A trace is settled when its last event
  is not the execution of a greedy word.
\<close>

definition follows_in_bundle :: "instruction_type list \<Rightarrow> log \<Rightarrow> log \<Rightarrow> bool" where
  "follows_in_bundle text a b =
     (case a of
        Executed j \<Rightarrow> (if is_greedy (text ! j) then b = Executed (j + 1) \<or> b = Halted else True)
      | _ \<Rightarrow> True)"

definition bundles_atomic :: "instruction_type list \<Rightarrow> log list \<Rightarrow> bool" where
  "bundles_atomic text trace = successively (follows_in_bundle text) trace"

definition settled :: "instruction_type list \<Rightarrow> log list \<Rightarrow> bool" where
  "settled text trace =
     (trace = [] \<or> (\<forall>j. last trace = Executed j \<longrightarrow> \<not> is_greedy (text ! j)))"

text \<open>
  The register file after \<open>n\<close> words from \<open>ip\<close> on have been dispatched one after the
  other, each of them returning the address of its successor; \<open>None\<close> when one of them
  returned the null pointer or threw.
\<close>

primrec dispatch_chain ::
  "instruction_type list \<Rightarrow> Value list \<Rightarrow> nat \<Rightarrow> nat \<Rightarrow> Value list option" where
  "dispatch_chain text registers ip 0 = Some registers"
| "dispatch_chain text registers ip (Suc n) =
     (case execute registers text ip of
        Inr (registers', Some ip') \<Rightarrow> dispatch_chain text registers' ip' n
      | _ \<Rightarrow> None)"

text \<open>
  A bundle longer than the preemption threshold: three greedy NOOPs and a plain one.
  And a bundle of the same shape whose second word is a HALT.
\<close>

definition bundle_of_three :: "instruction_type list" where
  "bundle_of_three =
     [ucast (GREEDY OR NOOP), ucast (GREEDY OR NOOP), ucast (GREEDY OR NOOP), ucast NOOP,
      ucast HALT]"

definition bundle_with_halt :: "instruction_type list" where
  "bundle_with_halt =
     [ucast (GREEDY OR NOOP), ucast (GREEDY OR HALT), ucast (GREEDY OR NOOP), ucast NOOP]"

text \<open>
  The relocation table: the opcode of a word as \<^verbatim>\<open>make_reloc_table\<close> reads it, the
  indices that get a relocation, the kind each of them gets, and the 64-bit value that
  the immediates of the two words before an index form (\<^verbatim>\<open>hi | lo\<close>, the first word
  giving the upper 32 bits).
\<close>

definition masked_opcode :: "instruction_type \<Rightarrow> opcode_type" where
  "masked_opcode each = ucast (each AND ucast OPCODE_MASK)"

definition relocated :: "instruction_type list \<Rightarrow> nat \<Rightarrow> bool" where
  "relocated text i = (masked_opcode (text ! i) = CALL \<or> masked_opcode (text ! i) = ATOM)"

definition kind_at :: "instruction_type list \<Rightarrow> nat \<Rightarrow> R_VIUA" where
  "kind_at text i = (if masked_opcode (text ! i) = CALL then R_VIUA_JUMP_SLOT else R_VIUA_OBJECT)"

definition symbol_index :: "instruction_type list \<Rightarrow> nat \<Rightarrow> 64 word" where
  "symbol_index text i =
     push_bit 32 (ucast (f_immediate (F_decode (text ! (i - 2)))))
       OR ucast (f_immediate (F_decode (text ! (i - 1))))"

text \<open>
  Modelled from the spec: the instructions of a function after the long immediates
  have been cooked (\<^verbatim>\<open>viua::libs::stage::expand_pseudoinstructions\<close> is not among the
  sources). An instruction that refers to a label is a CALL or an ATOM after two
  F-format words that hold the upper and the lower 32 bits of the index of the label
  in the symbol table, an index that the 32-bit symbol field of a relocation can hold;
  any other instruction is one word that is neither a CALL nor an ATOM. \<open>relocs_of\<close>
  lists the relocations of such a sequence whose first word is the word \<open>n\<close> of the
  text: one for each reference, at the first of its three words.
\<close>

datatype Cooked =
  is_Plain: Plain instruction_type
| is_Reference: Reference (index_of: "64 word") (carrier_of: F) (site_of: instruction_type)

fun words_of :: "Cooked \<Rightarrow> instruction_type list" where
  "words_of (Plain w) = [w]"
| "words_of (Reference index carrier w) =
     [F_encode (carrier\<lparr>f_immediate := ucast (drop_bit 32 index)\<rparr>),
      F_encode (carrier\<lparr>f_immediate := ucast index\<rparr>),
      w]"

fun well_cooked :: "Cooked \<Rightarrow> bool" where
  "well_cooked (Plain w) = (masked_opcode w \<noteq> CALL \<and> masked_opcode w \<noteq> ATOM)"
| "well_cooked (Reference index carrier w) =
     ((masked_opcode w = CALL \<or> masked_opcode w = ATOM)
      \<and> f_opcode carrier AND FORMAT_MASK = FORMAT_F \<and> index < 2 ^ 32)"

fun relocs_of :: "nat \<Rightarrow> Cooked list \<Rightarrow> Elf64_Rel list" where
  "relocs_of n [] = []"
| "relocs_of n (Plain w # rest) = relocs_of (n + 1) rest"
| "relocs_of n (Reference index carrier w # rest) =
     \<lparr>r_offset = of_nat n * 8,
      r_info = ELF64_R_INFO (ucast index)
                 (R_VIUA_code (if masked_opcode w = CALL then R_VIUA_JUMP_SLOT
                               else R_VIUA_OBJECT))\<rparr>
     # relocs_of (n + 3) rest"

text \<open>
  Two texts: a CALL after two F-format words whose immediates, 1 and 5, form a value
  of more than 32 bits; and a text as the assembler lays it out (HALT first), with a
  CALL and a greedy ATOM, each after the two words that carry its symbol index.
\<close>

definition call_after_halves :: "instruction_type list" where
  "call_after_halves =
     [F_encode \<lparr>f_opcode = FORMAT_F OR 1, f_out = make_local 1, f_immediate = 1\<rparr>,
      F_encode \<lparr>f_opcode = FORMAT_F OR 1, f_out = make_local 1, f_immediate = 5\<rparr>,
      D_encode \<lparr>d_opcode = CALL, d_out = make_local 1, d_in = make_local 2\<rparr>]"

definition sample_text :: "instruction_type list" where
  "sample_text =
     [ucast HALT,
      F_encode \<lparr>f_opcode = FORMAT_F OR 1, f_out = make_local 1, f_immediate = 0\<rparr>,
      F_encode \<lparr>f_opcode = FORMAT_F OR 1, f_out = make_local 1, f_immediate = 5\<rparr>,
      D_encode \<lparr>d_opcode = CALL, d_out = make_local 1, d_in = make_local 2\<rparr>,
      F_encode \<lparr>f_opcode = FORMAT_F OR 1, f_out = make_local 2, f_immediate = 0\<rparr>,
      F_encode \<lparr>f_opcode = FORMAT_F OR 1, f_out = make_local 2, f_immediate = 7\<rparr>,
      S_encode \<lparr>s_opcode = GREEDY OR ATOM, s_out = make_local 2\<rparr>]"

text \<open>
  Entry points: the nodes that have the attribute, in the order of the program, and
  the diagnostic \<^verbatim>\<open>find_entry_point\<close> builds for a duplicate.
\<close>

definition entry_points :: "Node list \<Rightarrow> Node list" where
  "entry_points nodes = filter (\<lambda>n. has_attr n ''entry_point'') nodes"

definition duplicated :: "Lexeme \<Rightarrow> Node \<Rightarrow> Error" where
  "duplicated first_fn dup =
     \<lparr>cause = Duplicated_entry_point, main_lexeme = node_name dup,
      message = lexeme_text (node_name dup),
      detail_lexemes = [the (attr dup ''entry_point'')],
      error_notes = [''first entry point was: '' @ lexeme_text first_fn]\<rparr>"

text \<open>
  A stack with one frame whose register 2 holds 16 under a given tag, and the stack
  break at 100.
\<close>

definition sample_stack :: "Unboxed_type \<Rightarrow> Stack" where
  "sample_stack t =
     \<lparr>proc = \<lparr>stack_break = 100, pointers = []\<rparr>,
      frames = [\<lparr>local_registers = [Value_init, Value_init,
                                     \<lparr>type_of_unboxed = t, value_of = U64 16\<rparr>],
                 parameters = [], saved_sbrk = 100\<rparr>]\<rparr>"

text \<open>
  The two overloads of \<^verbatim>\<open>op_li\<close>: the opcodes they emit and the tag these opcodes
  give to their output.
\<close>

definition li_variant :: "opcode_type \<Rightarrow> opcode_type \<Rightarrow> Unboxed_type \<Rightarrow> bool" where
  "li_variant lui addi tag =
     ((lui = LUIU \<and> addi = ADDIU \<and> tag = Integer_unsigned)
      \<or> (lui = LUI \<and> addi = ADDI \<and> tag = Integer_signed))"

section \<open>The instruction codec\<close>

lemmas opcode_defs =
  GREEDY_def OPCODE_MASK_def FORMAT_MASK_def
  FORMAT_N_def FORMAT_T_def FORMAT_D_def FORMAT_S_def FORMAT_F_def FORMAT_E_def FORMAT_R_def
  NOOP_def HALT_def EBREAK_def ADD_def SUB_def MUL_def DIV_def CALL_def DELETE_def ATOM_def
  LUI_def LUIU_def ADDI_def ADDIU_def

text \<open>Which bits of a 16-bit access field an access sets.\<close>

lemma set_code_bits:
  "bit (set_code s) n \<longleftrightarrow> (s = LOCAL \<and> n = 0) \<or> (s = PARAMETER \<and> n = 1)"
proof (cases s)
  case PARAMETER
  have "bit (2 :: 16 word) n \<longleftrightarrow> n = 1"
    using bit_exp_iff [of 1 n, where ?'a = "16 word"] by (auto simp add: bit_simps)
  then show ?thesis using PARAMETER by (simp add: set_code_def)
qed (auto simp add: set_code_def bit_simps)

lemma bit_ra_encode:
  "bit (ra_encode a) n \<longleftrightarrow>
     (n < 8 \<and> bit (ra_index a) n) \<or> (n = 8 \<and> ra_direct a)
     \<or> (n = 9 \<and> ra_set a = LOCAL) \<or> (n = 10 \<and> ra_set a = PARAMETER)"
  unfolding ra_encode_def
  by (auto simp add: bit_simps set_code_bits dest: bit_imp_le_length)

lemma ra_encode_width: "bit (ra_encode a) m \<Longrightarrow> m < 11"
  by (auto simp add: bit_ra_encode)

lemma ra_decode_eqI:
  assumes "\<And>n. n < 12 \<Longrightarrow> bit raw n = bit (ra_encode a) n"
  shows "ra_decode raw = a"
proof -
  have i: "ucast raw = ra_index a"
    by (rule bit_word_eqI) (use assms in \<open>auto simp add: bit_simps bit_ra_encode\<close>)
  have d: "bit raw 8 = ra_direct a"
    using assms [of 8] by (simp add: bit_ra_encode)
  have s: "take_bit 3 (drop_bit 9 raw) = set_code (ra_set a)"
    by (rule bit_word_eqI) (use assms in \<open>auto simp add: bit_simps bit_ra_encode set_code_bits\<close>)
  show ?thesis
    unfolding ra_decode_def i d s
    by (cases "ra_set a") (simp_all add: set_code_def set_of_code_def)
qed

lemma ra_roundtrip: "ra_decode (ra_encode a) = a"
  by (rule ra_decode_eqI) simp

lemma bit_access_at:
  "bit (access_at k a) n \<longleftrightarrow> k \<le> n \<and> n < 64 \<and> bit (ra_encode a) (n - k)"
  by (auto simp add: access_at_def bit_simps dest: bit_imp_le_length)

lemma access_of_eqI:
  assumes "\<And>n. n < 12 \<Longrightarrow> bit raw (k + n) = bit (ra_encode a) n"
  shows "access_of k raw = a"
  unfolding access_of_def
  by (rule ra_decode_eqI) (use assms in \<open>auto simp add: bit_simps ac_simps\<close>)

lemma opcode_of_eqI:
  assumes "\<And>n. n < 16 \<Longrightarrow> bit raw n = bit op n"
  shows "opcode_of raw = op"
  unfolding opcode_of_def
  by (rule bit_word_eqI) (use assms in \<open>auto simp add: bit_simps\<close>)

lemmas codec_bits = bit_simps bit_access_at

lemma word_width: "(x :: 'a::len word) < 2 ^ k \<Longrightarrow> bit x n \<Longrightarrow> n < k"
  by (metis bit_take_bit_iff less_mask_eq take_bit_eq_mask)

text \<open>The layout of each format, bit by bit.\<close>

lemma bit_N_encode: "bit (N_encode i) n \<longleftrightarrow> n < 16 \<and> bit (n_opcode i) n"
  unfolding N_encode_def
  by (auto simp add: codec_bits dest: bit_imp_le_length)

lemma bit_S_encode:
  "bit (S_encode i) n \<longleftrightarrow>
     (n < 16 \<and> bit (s_opcode i) n)
     \<or> (16 \<le> n \<and> n < 32 \<and> bit (ra_encode (s_out i)) (n - 16))"
proof -
  consider "n < 16" | "16 \<le> n" "n < 32" | "32 \<le> n" "n < 64" | "64 \<le> n"
    by linarith
  then show ?thesis
  proof cases
    case 1
    then show ?thesis unfolding S_encode_def Let_def
      by (auto simp add: codec_bits dest: bit_imp_le_length ra_encode_width)
  next
    case 2
    then show ?thesis unfolding S_encode_def Let_def
      by (auto simp add: codec_bits dest: bit_imp_le_length ra_encode_width)
  next
    case 3
    then show ?thesis unfolding S_encode_def Let_def
      by (auto simp add: codec_bits dest: bit_imp_le_length ra_encode_width)
  next
    case 4
    then show ?thesis
      by (auto dest: bit_imp_le_length)
  qed
qed

lemma bit_D_encode:
  "bit (D_encode i) n \<longleftrightarrow>
     (n < 16 \<and> bit (d_opcode i) n)
     \<or> (16 \<le> n \<and> n < 32 \<and> bit (ra_encode (d_out i)) (n - 16))
     \<or> (32 \<le> n \<and> n < 48 \<and> bit (ra_encode (d_in i)) (n - 32))"
proof -
  consider "n < 16" | "16 \<le> n" "n < 32" | "32 \<le> n" "n < 48" | "48 \<le> n" "n < 64" | "64 \<le> n"
    by linarith
  then show ?thesis
  proof cases
    case 1
    then show ?thesis unfolding D_encode_def Let_def
      by (auto simp add: codec_bits dest: bit_imp_le_length ra_encode_width)
  next
    case 2
    then show ?thesis unfolding D_encode_def Let_def
      by (auto simp add: codec_bits dest: bit_imp_le_length ra_encode_width)
  next
    case 3
    then show ?thesis unfolding D_encode_def Let_def
      by (auto simp add: codec_bits dest: bit_imp_le_length ra_encode_width)
  next
    case 4
    then show ?thesis unfolding D_encode_def Let_def
      by (auto simp add: codec_bits dest: bit_imp_le_length ra_encode_width)
  next
    case 5
    then show ?thesis
      by (auto dest: bit_imp_le_length)
  qed
qed

lemma bit_T_encode:
  "bit (T_encode i) n \<longleftrightarrow>
     (n < 16 \<and> bit (t_opcode i) n)
     \<or> (16 \<le> n \<and> n < 32 \<and> bit (ra_encode (t_out i)) (n - 16))
     \<or> (32 \<le> n \<and> n < 48 \<and> bit (ra_encode (t_lhs i)) (n - 32))
     \<or> (48 \<le> n \<and> n < 64 \<and> bit (ra_encode (t_rhs i)) (n - 48))"
proof -
  consider "n < 16" | "16 \<le> n" "n < 32" | "32 \<le> n" "n < 48" | "48 \<le> n" "n < 64" | "64 \<le> n"
    by linarith
  then show ?thesis
  proof cases
    case 1
    then show ?thesis unfolding T_encode_def Let_def
      by (auto simp add: codec_bits dest: bit_imp_le_length ra_encode_width)
  next
    case 2
    then show ?thesis unfolding T_encode_def Let_def
      by (auto simp add: codec_bits dest: bit_imp_le_length ra_encode_width)
  next
    case 3
    then show ?thesis unfolding T_encode_def Let_def
      by (auto simp add: codec_bits dest: bit_imp_le_length ra_encode_width)
  next
    case 4
    then show ?thesis unfolding T_encode_def Let_def
      by (auto simp add: codec_bits dest: bit_imp_le_length ra_encode_width)
  next
    case 5
    then show ?thesis
      by (auto dest: bit_imp_le_length)
  qed
qed

lemma bit_F_encode:
  "bit (F_encode i) n \<longleftrightarrow>
     (n < 16 \<and> bit (f_opcode i) n)
     \<or> (16 \<le> n \<and> n < 32 \<and> bit (ra_encode (f_out i)) (n - 16))
     \<or> (32 \<le> n \<and> n < 64 \<and> bit (f_immediate i) (n - 32))"
proof -
  consider "n < 16" | "16 \<le> n" "n < 32" | "32 \<le> n" "n < 64" | "64 \<le> n"
    by linarith
  then show ?thesis
  proof cases
    case 1
    then show ?thesis unfolding F_encode_def Let_def
      by (auto simp add: codec_bits dest: bit_imp_le_length ra_encode_width)
  next
    case 2
    then show ?thesis unfolding F_encode_def Let_def
      by (auto simp add: codec_bits dest: bit_imp_le_length ra_encode_width)
  next
    case 3
    then show ?thesis unfolding F_encode_def Let_def
      by (auto simp add: codec_bits dest: bit_imp_le_length ra_encode_width)
  next
    case 4
    then show ?thesis
      by (auto dest: bit_imp_le_length)
  qed
qed

lemma bit_E_encode:
  "bit (E_encode i) n \<longleftrightarrow>
     (n < 16 \<and> bit (e_opcode i) n)
     \<or> (16 \<le> n \<and> n < 28 \<and> bit (ra_encode (e_out i)) (n - 16))
     \<or> (28 \<le> n \<and> n < 32 \<and> bit (e_immediate i) (4 + n))
     \<or> (32 \<le> n \<and> n < 64 \<and> bit (e_immediate i) (n - 32))"
proof -
  consider "n < 16" | "16 \<le> n" "n < 28" | "28 \<le> n" "n < 32" | "32 \<le> n" "n < 64" | "64 \<le> n"
    by linarith
  then show ?thesis
  proof cases
    case 1
    then show ?thesis unfolding E_encode_def Let_def
      by (auto simp add: codec_bits dest: bit_imp_le_length ra_encode_width)
  next
    case 2
    then show ?thesis unfolding E_encode_def Let_def
      by (auto simp add: codec_bits dest: bit_imp_le_length ra_encode_width)
  next
    case 3
    then show ?thesis unfolding E_encode_def Let_def
      by (auto simp add: codec_bits dest: bit_imp_le_length ra_encode_width)
  next
    case 4
    then show ?thesis unfolding E_encode_def Let_def
      by (auto simp add: codec_bits dest: bit_imp_le_length ra_encode_width)
  next
    case 5
    then show ?thesis
      by (auto dest: bit_imp_le_length)
  qed
qed

lemma bit_R_encode:
  "bit (R_encode i) n \<longleftrightarrow>
     (n < 16 \<and> bit (r_opcode i) n)
     \<or> (16 \<le> n \<and> n < 28 \<and> bit (ra_encode (r_out i)) (n - 16))
     \<or> (28 \<le> n \<and> n < 32 \<and> bit (r_immediate i) (n - 8))
     \<or> (32 \<le> n \<and> n < 44 \<and> bit (ra_encode (r_in i)) (n - 32))
     \<or> (44 \<le> n \<and> n < 48 \<and> bit (r_immediate i) (n - 28))
     \<or> (48 \<le> n \<and> n < 64 \<and> bit (r_immediate i) (n - 48))"
proof -
  consider "n < 16" | "16 \<le> n" "n < 28" | "28 \<le> n" "n < 32" | "32 \<le> n" "n < 44" | "44 \<le> n" "n < 48" | "48 \<le> n" "n < 64" | "64 \<le> n"
    by linarith
  then show ?thesis
  proof cases
    case 1
    then show ?thesis unfolding R_encode_def Let_def
      by (auto simp add: codec_bits dest: bit_imp_le_length ra_encode_width)
  next
    case 2
    then show ?thesis unfolding R_encode_def Let_def
      by (auto simp add: codec_bits dest: bit_imp_le_length ra_encode_width)
  next
    case 3
    then show ?thesis unfolding R_encode_def Let_def
      by (auto simp add: codec_bits dest: bit_imp_le_length ra_encode_width)
  next
    case 4
    then show ?thesis unfolding R_encode_def Let_def
      by (auto simp add: codec_bits dest: bit_imp_le_length ra_encode_width)
  next
    case 5
    then show ?thesis unfolding R_encode_def Let_def
      by (auto simp add: codec_bits dest: bit_imp_le_length ra_encode_width)
  next
    case 6
    then show ?thesis unfolding R_encode_def Let_def
      by (auto simp add: codec_bits dest: bit_imp_le_length ra_encode_width)
  next
    case 7
    then show ?thesis
      by (auto dest: bit_imp_le_length)
  qed
qed

text \<open>Decoding what was encoded, format by format.\<close>

lemma N_roundtrip: "N_decode (N_encode i) = i"
proof -
  have "opcode_of (N_encode i) = n_opcode i"
    by (rule opcode_of_eqI) (simp add: bit_N_encode)
  then show ?thesis by (simp add: N_decode_def)
qed

lemma S_roundtrip: "S_decode (S_encode i) = i"
proof -
  have "opcode_of (S_encode i) = s_opcode i"
    by (rule opcode_of_eqI) (simp add: bit_S_encode)
  moreover have "access_of 16 (S_encode i) = s_out i"
    by (rule access_of_eqI) (simp add: bit_S_encode)
  ultimately show ?thesis by (simp add: S_decode_def)
qed

lemma D_roundtrip: "D_decode (D_encode i) = i"
proof -
  have "opcode_of (D_encode i) = d_opcode i"
    by (rule opcode_of_eqI) (simp add: bit_D_encode)
  moreover have "access_of 16 (D_encode i) = d_out i"
    by (rule access_of_eqI) (simp add: bit_D_encode)
  moreover have "access_of 32 (D_encode i) = d_in i"
    by (rule access_of_eqI) (simp add: bit_D_encode)
  ultimately show ?thesis by (simp add: D_decode_def)
qed

lemma T_roundtrip: "T_decode (T_encode i) = i"
proof -
  have "opcode_of (T_encode i) = t_opcode i"
    by (rule opcode_of_eqI) (simp add: bit_T_encode)
  moreover have "access_of 16 (T_encode i) = t_out i"
    by (rule access_of_eqI) (simp add: bit_T_encode)
  moreover have "access_of 32 (T_encode i) = t_lhs i"
    by (rule access_of_eqI) (simp add: bit_T_encode)
  moreover have "access_of 48 (T_encode i) = t_rhs i"
    by (rule access_of_eqI) (simp add: bit_T_encode)
  ultimately show ?thesis by (simp add: T_decode_def)
qed

lemma F_roundtrip: "F_decode (F_encode i) = i"
proof -
  have "opcode_of (F_encode i) = f_opcode i"
    by (rule opcode_of_eqI) (simp add: bit_F_encode)
  moreover have "access_of 16 (F_encode i) = f_out i"
    by (rule access_of_eqI) (simp add: bit_F_encode)
  moreover have "ucast (drop_bit 32 (F_encode i)) = f_immediate i"
    by (rule bit_word_eqI) (auto simp add: bit_simps bit_F_encode)
  ultimately show ?thesis by (simp add: F_decode_def)
qed

lemma E_roundtrip:
  assumes "e_immediate i < 2 ^ 36"
  shows "E_decode (E_encode i) = i"
proof -
  have hi: "\<And>n. bit (e_immediate i) n \<Longrightarrow> n < 36"
    using assms by (rule word_width)
  have "opcode_of (E_encode i) = e_opcode i"
    by (rule opcode_of_eqI) (simp add: bit_E_encode)
  moreover have "access_of 16 (E_encode i) = e_out i"
    by (rule access_of_eqI) (auto simp add: bit_E_encode dest: ra_encode_width)
  moreover have "push_bit 32 (take_bit 4 (drop_bit 28 (E_encode i))) OR drop_bit 32 (E_encode i)
      = e_immediate i"
    (is "?d = _")
  proof (rule bit_word_eqI)
    fix n :: nat
    assume "n < LENGTH(64)"
    consider "n < 32" | "32 \<le> n" "n < 36" | "36 \<le> n" by linarith
    then show "bit ?d n = bit (e_immediate i) n"
    proof cases
      case 1 then show ?thesis by (auto simp add: bit_simps bit_E_encode)
    next
      case 2 then show ?thesis by (auto simp add: bit_simps bit_E_encode)
    next
      case 3 then show ?thesis by (auto simp add: bit_simps bit_E_encode dest: hi)
    qed
  qed
  ultimately show ?thesis by (simp add: E_decode_def Let_def)
qed

lemma R_roundtrip:
  assumes "r_immediate i < 2 ^ 24"
  shows "R_decode (R_encode i) = i"
proof -
  have hi: "\<And>n. bit (r_immediate i) n \<Longrightarrow> n < 24"
    using assms by (rule word_width)
  have "opcode_of (R_encode i) = r_opcode i"
    by (rule opcode_of_eqI) (simp add: bit_R_encode)
  moreover have "access_of 16 (R_encode i) = r_out i"
    by (rule access_of_eqI) (auto simp add: bit_R_encode dest: ra_encode_width)
  moreover have "access_of 32 (R_encode i) = r_in i"
    by (rule access_of_eqI) (auto simp add: bit_R_encode dest: ra_encode_width)
  moreover have "ucast (drop_bit 48 (R_encode i))
      OR push_bit 16 (ucast (take_bit 4 (drop_bit 44 (R_encode i))))
      OR push_bit 20 (ucast (take_bit 4 (drop_bit 28 (R_encode i)))) = r_immediate i"
    (is "?d = _")
  proof (rule bit_word_eqI)
    fix n :: nat
    assume "n < LENGTH(32)"
    consider "n < 16" | "16 \<le> n" "n < 20" | "20 \<le> n" "n < 24" | "24 \<le> n" by linarith
    then show "bit ?d n = bit (r_immediate i) n"
    proof cases
      case 1 then show ?thesis by (auto simp add: bit_simps bit_R_encode)
    next
      case 2 then show ?thesis by (auto simp add: bit_simps bit_R_encode)
    next
      case 3 then show ?thesis by (auto simp add: bit_simps bit_R_encode)
    next
      case 4 then show ?thesis by (auto simp add: bit_simps bit_R_encode dest: hi)
    qed
  qed
  ultimately show ?thesis by (simp add: R_decode_def Let_def)
qed

text \<open>
  C3. Every format decodes what it encoded: the opcode with its greedy overlay (the
  whole 16-bit opcode field comes back, so the greedy bit with it), every register
  access, and the immediate, provided the immediate fits the width of its format
  (36 bits for E, 24 bits for R; the 32-bit immediate of F always fits).
\<close>

theorem codec_roundtrip:
  assumes "e_immediate e < 2 ^ 36" and "r_immediate r < 2 ^ 24"
  shows "N_decode (N_encode n) = n \<and> S_decode (S_encode s) = s
    \<and> D_decode (D_encode d) = d \<and> T_decode (T_encode t) = t
    \<and> E_decode (E_encode e) = e \<and> R_decode (R_encode r) = r
    \<and> F_decode (F_encode f) = f
    \<and> (n_opcode (N_decode (N_encode n)) AND GREEDY) = (n_opcode n AND GREEDY)
    \<and> (t_opcode (T_decode (T_encode t)) AND GREEDY) = (t_opcode t AND GREEDY)"
  using assms
  by (simp add: N_roundtrip S_roundtrip D_roundtrip T_roundtrip E_roundtrip R_roundtrip
      F_roundtrip)

theorem codec_roundtrip_witness:
  "(0xabcdef012 :: 64 word) < 2 ^ 36 \<and> (0xabcdef :: 32 word) < 2 ^ 24
   \<and> E_decode (E_encode \<lparr>e_opcode = 0xdead, e_out = make_local 0xff,
                          e_immediate = 0xabcdef012\<rparr>)
       = \<lparr>e_opcode = 0xdead, e_out = make_local 0xff, e_immediate = 0xabcdef012\<rparr>
   \<and> R_decode (R_encode \<lparr>r_opcode = 0xdead, r_out = make_local 0x55, r_in = make_local 0x22,
                          r_immediate = 0xabcdef\<rparr>)
       = \<lparr>r_opcode = 0xdead, r_out = make_local 0x55, r_in = make_local 0x22,
          r_immediate = 0xabcdef\<rparr>
   \<and> T_decode (T_encode \<lparr>t_opcode = 0xdead, t_out = make_local 0xff, t_lhs = make_local 1,
                          t_rhs = make_local 2\<rparr>)
       = \<lparr>t_opcode = 0xdead, t_out = make_local 0xff, t_lhs = make_local 1,
          t_rhs = make_local 2\<rparr>"
  using codec_roundtrip [of
      "\<lparr>e_opcode = 0xdead, e_out = make_local 0xff, e_immediate = 0xabcdef012\<rparr>"
      "\<lparr>r_opcode = 0xdead, r_out = make_local 0x55, r_in = make_local 0x22,
        r_immediate = 0xabcdef\<rparr>"
      _ _ _
      "\<lparr>t_opcode = 0xdead, t_out = make_local 0xff, t_lhs = make_local 1,
        t_rhs = make_local 2\<rparr>"]
  by simp

section \<open>The load-immediate decomposition\<close>

lemma HIGH_36_mask: "HIGH_36 = NOT (mask 28)"
  by (simp add: HIGH_36_def mask_eq_exp_minus_1)

lemma LOW_24_mask: "LOW_24 = mask 24"
  by (simp add: LOW_24_def mask_eq_exp_minus_1)

lemma high_low_join:
  "push_bit 28 (drop_bit 28 (v AND HIGH_36))
     OR ucast (ucast (v AND NOT HIGH_36) :: 32 word) = (v :: 64 word)"
  unfolding HIGH_36_mask
  by (rule bit_word_eqI) (auto simp add: bit_simps)

lemma base_remainder:
  fixes low_part :: "32 word"
  shows "(low_part - low_part mod 16) div 16 * 16 + low_part mod 16 = low_part"
proof -
  have "low_part - low_part mod 16 = low_part div 16 * 16"
    using word_mod_div_equality [of low_part 16] by (simp add: algebra_simps)
  moreover have "low_part div 16 * 16 div 16 = low_part div 16"
  proof (rule word_div_mult)
    show "0 < (16 :: 32 word)" by simp
    have "unat (low_part div 16) * 16 \<le> unat low_part"
      by (simp add: unat_div)
    also have "\<dots> < 2 ^ LENGTH(32)"
      by (rule unsigned_less)
    finally show "unat (low_part div 16) * unat (16 :: 32 word) < 2 ^ LENGTH(32)"
      by simp
  qed
  ultimately show ?thesis
    using word_mod_div_equality [of low_part 16] by simp
qed

text \<open>
  C2. Whatever parts \<open>to_loading_parts_unsigned\<close> returns for a 64-bit value, they
  recompose to it: with a non-zero multiplier the low part is
  \<open>base * multiplier + remainder\<close> (computed on 32 bits, as the self-test of the source
  does), with a zero multiplier it is \<open>base\<close>, and in both cases the high part shifted
  left by 28 bits is or-ed to it.
\<close>

theorem to_loading_parts_unsigned_recomposes:
  assumes "to_loading_parts_unsigned v = (high_part, ((base, multiplier), remainder))"
  shows "(multiplier \<noteq> 0 \<longrightarrow> push_bit 28 high_part OR ucast (base * multiplier + remainder) = v)
    \<and> (multiplier = 0 \<longrightarrow> push_bit 28 high_part OR ucast base = v)"
  using assms high_low_join [of v] base_remainder [of "ucast (v AND NOT HIGH_36)"]
  by (auto simp add: to_loading_parts_unsigned_def Let_def split: if_splits)

theorem to_loading_parts_unsigned_recomposes_witness:
  "to_loading_parts_unsigned 0xdeadbeefdeadbeef = (0xdeadbeefd, ((0xeadbee, 16), 0xf))
   \<and> push_bit 28 (0xdeadbeefd :: 64 word) OR ucast ((0xeadbee :: 32 word) * 16 + 0xf)
       = 0xdeadbeefdeadbeef
   \<and> to_loading_parts_unsigned 0xdeadbeefd0adbeef = (0xdeadbeefd, ((0xadbeef, 0), 0))
   \<and> push_bit 28 (0xdeadbeefd :: 64 word) OR ucast (0xadbeef :: 32 word)
       = 0xdeadbeefd0adbeef"
proof -
  have a: "to_loading_parts_unsigned 0xdeadbeefdeadbeef = (0xdeadbeefd, ((0xeadbee, 16), 0xf))"
    by (simp add: to_loading_parts_unsigned_def HIGH_36_def LOW_24_def)
  have b: "to_loading_parts_unsigned 0xdeadbeefd0adbeef = (0xdeadbeefd, ((0xadbeef, 0), 0))"
    by (simp add: to_loading_parts_unsigned_def HIGH_36_def LOW_24_def)
  from to_loading_parts_unsigned_recomposes [OF a] to_loading_parts_unsigned_recomposes [OF b] a b
  show ?thesis by simp
qed

section \<open>The executors\<close>

lemma at_256: "length registers = 256 \<Longrightarrow> at registers i = Inr (registers ! unat i)"
  using unsigned_less [of i, where ?'a = nat] by (simp add: at_def)

text \<open>
  C6. On a register file of 256 slots, ADDI and ADDIU replace the output register by
  the sum of the base and the immediate, tagged signed by ADDI and unsigned by ADDIU;
  the base is 0 for a void input access and the 64-bit payload \<open>p\<close> of the input
  register otherwise. The result is the old register file updated at the output index
  only, so every other slot is as before.
\<close>

theorem addi_addiu_effect:
  assumes "length registers = 256"
    and "is_void_access (r_in op) \<or> value_of (registers ! unat (ra_index (r_in op))) = U64 p"
  shows "let out = unat (ra_index (r_out op));
             base = (if is_void_access (r_in op) then 0 else p);
             total = base + ucast (r_immediate op)
         in execute_ADDI registers op
              = Inr (registers[out := \<lparr>type_of_unboxed = Integer_signed, value_of = U64 total\<rparr>])
          \<and> execute_ADDIU registers op
              = Inr (registers[out := \<lparr>type_of_unboxed = Integer_unsigned, value_of = U64 total\<rparr>])
          \<and> (\<forall>v j. j \<noteq> out \<longrightarrow> registers[out := v] ! j = registers ! j)
          \<and> (\<forall>v. registers[out := v] ! out = v)"
proof -
  have "unat (ra_index (r_out op)) < length registers"
    using assms(1) unsigned_less [of "ra_index (r_out op)", where ?'a = nat] by simp
  moreover have "addi_base registers (r_in op)
      = Inr (if is_void_access (r_in op) then 0 else p)"
    using assms by (auto simp add: addi_base_def at_256 and_then_def get_uint64_def)
  ultimately show ?thesis
    using assms(1)
    by (simp add: execute_ADDI_def execute_ADDIU_def at_256 and_then_def store_def Let_def)
qed

theorem addi_addiu_effect_witness:
  "length clean_registers = 256
   \<and> is_void_access (r_in \<lparr>r_opcode = ADDIU, r_out = make_local 1, r_in = make_void,
                            r_immediate = 42\<rparr>)
   \<and> execute_ADDI clean_registers
        \<lparr>r_opcode = ADDIU, r_out = make_local 1, r_in = make_void, r_immediate = 42\<rparr>
       = Inr (clean_registers[1 := \<lparr>type_of_unboxed = Integer_signed, value_of = U64 42\<rparr>])
   \<and> execute_ADDIU clean_registers
        \<lparr>r_opcode = ADDIU, r_out = make_local 1, r_in = make_void, r_immediate = 42\<rparr>
       = Inr (clean_registers[1 := \<lparr>type_of_unboxed = Integer_unsigned, value_of = U64 42\<rparr>])"
proof -
  have l: "length clean_registers = 256"
    by (simp add: clean_registers_def)
  have v: "is_void_access (r_in \<lparr>r_opcode = ADDIU, r_out = make_local 1, r_in = make_void,
      r_immediate = 42\<rparr>)
    \<or> value_of (clean_registers ! unat (ra_index (r_in \<lparr>r_opcode = ADDIU, r_out = make_local 1,
         r_in = make_void, r_immediate = 42\<rparr>))) = U64 0"
    by (simp add: is_void_access_def make_void_def)
  from addi_addiu_effect [OF l v] l v show ?thesis
    by (simp add: Let_def make_local_def is_void_access_def make_void_def)
qed

text \<open>
  The executors of this interpreter never box a value, so in every state the loop
  reaches from \<open>clean_registers\<close> the input register of an ADDI has a 64-bit payload.
\<close>

lemma addi_boxed_input:
  assumes "length registers = 256" and "\<not> is_void_access (r_in op)"
    and "value_of (registers ! unat (ra_index (r_in op))) = Boxed b"
  shows "execute_ADDI registers op = Inl Bad_variant_access"
    and "execute_ADDIU registers op = Inl Bad_variant_access"
  using assms
  by (simp_all add: execute_ADDI_def execute_ADDIU_def addi_base_def at_256 and_then_def
      get_uint64_def)

text \<open>
  C5 as the spec states it fails: a DIV whose right-hand register holds 0 runs to the
  normal end of the loop (\<open>Halted\<close>, no error), with the registers as they were.
\<close>

theorem div_by_zero_halts_normally:
  "run [] (clean_registers[1 := \<lparr>type_of_unboxed = Integer_unsigned, value_of = U64 7\<rparr>,
                            2 := \<lparr>type_of_unboxed = Integer_unsigned, value_of = U64 0\<rparr>])
     [T_encode \<lparr>t_opcode = DIV, t_out = make_local 3, t_lhs = make_local 1,
                t_rhs = make_local 2\<rparr>] 0
   = ([Cycle_at 0, Single 0, Executed 0, Halted],
      Inr (clean_registers[1 := \<lparr>type_of_unboxed = Integer_unsigned, value_of = U64 7\<rparr>,
                           2 := \<lparr>type_of_unboxed = Integer_unsigned, value_of = U64 0\<rparr>]))"
  by code_simp

text \<open>
  C5, amended. The dispatcher has no case for DIV: whatever the registers hold, a word
  whose opcode is DIV is reported as unimplemented, the dispatcher returns the null
  pointer without touching the registers, and \<open>run_instruction\<close> hands this on, so the
  loop ends as it does for HALT.
\<close>

theorem div_is_unimplemented:
  assumes "ip < length text" and "ucast (text ! ip AND ucast OPCODE_MASK) = DIV"
  shows "execute registers text ip = Inr (registers, None)
    \<and> run_instruction trace registers text ip = (trace @ [Executed ip], Inr (registers, None))"
proof -
  have e: "execute registers text ip = Inr (registers, None)"
    using assms by (simp add: execute_def fetch_def and_then_def Let_def opcode_defs)
  then show ?thesis
    using assms(1) by (subst run_instruction.simps) (simp add: fetch_def)
qed

theorem div_is_unimplemented_witness:
  "(0 :: nat) < length [T_encode \<lparr>t_opcode = DIV, t_out = make_local 3, t_lhs = make_local 1,
                                  t_rhs = make_local 2\<rparr>]
   \<and> execute clean_registers
        [T_encode \<lparr>t_opcode = DIV, t_out = make_local 3, t_lhs = make_local 1,
                   t_rhs = make_local 2\<rparr>] 0
       = Inr (clean_registers, None)"
proof -
  have o: "ucast ([T_encode \<lparr>t_opcode = DIV, t_out = make_local 3, t_lhs = make_local 1,
      t_rhs = make_local 2\<rparr>] ! 0 AND ucast OPCODE_MASK) = DIV"
    by code_simp
  from div_is_unimplemented [OF _ o, of clean_registers] show ?thesis
    by simp
qed

text \<open>EBREAK lists exactly the slots that are not void, in the order of their indices.\<close>

lemma dump_from_indices:
  "map fst (dump_from k rs) = map (\<lambda>i. k + i) (filter (\<lambda>i. \<not> is_void (rs ! i)) [0..<length rs])"
proof (induction rs arbitrary: k)
  case Nil
  then show ?case by simp
next
  case (Cons r rs)
  have "[0..<length (r # rs)] = 0 # map Suc [0..<length rs]"
    by (simp add: upt_conv_Cons map_Suc_upt del: upt_Suc)
  then show ?case
    using Cons.IH [of "Suc k"] by (simp add: filter_map o_def)
qed

text \<open>
  C10. EBREAK returns the register file it was given, slot by slot: the executor only
  produces the dump (one line for each slot that is not void), and the dispatcher, on
  any word whose opcode is EBREAK, continues at the next word with the same registers.
\<close>

theorem ebreak_leaves_registers:
  assumes "ip < length text" and "ucast (text ! ip AND ucast OPCODE_MASK) = EBREAK"
  shows "fst (execute_EBREAK registers) = registers
    \<and> map fst (snd (execute_EBREAK registers))
        = filter (\<lambda>i. \<not> is_void (registers ! i)) [0..<length registers]
    \<and> execute registers text ip = Inr (registers, Some (ip + 1))"
  using assms
  by (simp add: execute_EBREAK_def dump_from_indices execute_def fetch_def and_then_def Let_def
      opcode_defs)

theorem ebreak_leaves_registers_witness:
  "(0 :: nat) < length [ucast EBREAK :: instruction_type]
   \<and> execute (clean_registers[1 := \<lparr>type_of_unboxed = Integer_signed, value_of = U64 42\<rparr>])
        [ucast EBREAK] 0
       = Inr (clean_registers[1 := \<lparr>type_of_unboxed = Integer_signed, value_of = U64 42\<rparr>],
              Some 1)"
proof -
  have o: "ucast ([ucast EBREAK :: instruction_type] ! 0 AND ucast OPCODE_MASK) = EBREAK"
    by code_simp
  from ebreak_leaves_registers [OF _ o] show ?thesis
    by simp
qed

section \<open>Executing the expansion of \<open>li\<close>\<close>

text \<open>
  C1 does not hold of the code. When the low 28 bits of the value fit 24 bits and
  the high 36 bits are not zero, \<open>op_li\<close> emits LUIU and then an ADDIU whose input is
  void, which replaces register 1 by the low part instead of adding to it: from a
  clean register file the expansion of \<open>0xdeadbeefd0adbeef\<close> leaves \<open>0xadbeef\<close> in
  register 1.
\<close>

theorem op_li_unsigned_loses_high_part:
  "map_sum id (\<lambda>(registers, p). (registers ! 1, p))
     (snd (run_instruction [] clean_registers (op_li_unsigned 0xdeadbeefd0adbeef) 0))
   = Inr (\<lparr>type_of_unboxed = Integer_unsigned, value_of = U64 0xadbeef\<rparr>, Some 2)"
  by code_simp

text \<open>
  The signed overload does the same, and a value between \<open>2^24\<close> and \<open>2^28\<close>, for
  which no LUI is emitted, reaches register 1 through an ADD whose left-hand side is
  the void register 1: the payload is right and the tag stays \<open>Void\<close>.
\<close>

lemma op_li_signed_loses_high_part:
  "map_sum id (\<lambda>(registers, p). (registers ! 1, p))
     (snd (run_instruction [] clean_registers (op_li_signed 0xdeadbeefd0adbeef) 0))
   = Inr (\<lparr>type_of_unboxed = Integer_signed, value_of = U64 0xadbeef\<rparr>, Some 2)"
  by code_simp

lemma op_li_unsigned_leaves_void_tag:
  "map_sum id (\<lambda>(registers, p). (registers ! 1, p))
     (snd (run_instruction [] clean_registers (op_li_unsigned 0x1000000) 0))
   = Inr (\<lparr>type_of_unboxed = Void, value_of = U64 0x1000000\<rparr>, Some 6)"
  by code_simp

text \<open>Where a LUI is emitted and the low part needs the multiplication, the value arrives.\<close>

lemma op_li_unsigned_example:
  "map_sum id (\<lambda>(registers, p). (registers ! 1, p))
     (snd (run_instruction [] clean_registers (op_li_unsigned 0xdeadbeefdeadbeef) 0))
   = Inr (\<lparr>type_of_unboxed = Integer_unsigned, value_of = U64 0xdeadbeefdeadbeef\<rparr>, Some 7)"
  by code_simp

text \<open>
  The result of the expansion for every value \<open>v\<close>, from a clean register file. The
  expansion is one bundle; it leaves in register 1

    \<^item> the low 28 bits of \<open>v\<close> alone, when they fit 24 bits (the value itself only if
      the high 36 bits are zero);
    \<^item> the value \<open>v\<close> otherwise, tagged \<open>Void\<close> when the high 36 bits are zero (no
      LUI has set the tag of register 1) and as an integer when they are not.

  The lemmas below execute the encoded words one by one.
\<close>

lemma masked_opcode_of:
  "ucast (w AND ucast (m :: opcode_type)) = opcode_of (w :: instruction_type) AND m"
  unfolding opcode_of_def
  by (rule bit_word_eqI) (auto simp add: bit_simps)

lemma is_greedy_opcode_of: "is_greedy w \<longleftrightarrow> opcode_of w AND GREEDY \<noteq> 0"
proof -
  have "w AND ucast GREEDY = ucast (opcode_of w AND GREEDY)"
    unfolding opcode_of_def
    by (rule bit_word_eqI) (auto simp add: bit_simps dest: bit_imp_le_length)
  moreover have "(ucast x :: instruction_type) = 0 \<longleftrightarrow> x = 0" for x :: opcode_type
  proof
    assume a: "ucast x = (0 :: instruction_type)"
    show "x = 0"
    proof (rule bit_word_eqI)
      fix n
      assume n: "n < LENGTH(16)"
      from a have "bit (ucast x :: instruction_type) n = bit (0 :: instruction_type) n"
        by simp
      with n show "bit x n = bit (0 :: opcode_type) n"
        by (simp add: bit_simps)
    qed
  qed simp
  ultimately show ?thesis
    by (simp add: is_greedy_def)
qed

lemma opcode_of_E_encode: "opcode_of (E_encode i) = e_opcode i"
  by (rule opcode_of_eqI) (simp add: bit_E_encode)

lemma opcode_of_R_encode: "opcode_of (R_encode i) = r_opcode i"
  by (rule opcode_of_eqI) (simp add: bit_R_encode)

lemma opcode_of_T_encode: "opcode_of (T_encode i) = t_opcode i"
  by (rule opcode_of_eqI) (simp add: bit_T_encode)

lemma run_instruction_greedy_step:
  assumes "fetch prog ip = Inr w" and "execute regs prog ip = Inr (regs', Some ip')"
    and "is_greedy w"
  shows "run_instruction tr regs prog ip = run_instruction (tr @ [Executed ip]) regs' prog ip'"
  using assms by (subst run_instruction.simps) simp

lemma run_instruction_last_step:
  assumes "fetch prog ip = Inr w" and "execute regs prog ip = Inr (regs', Some ip')"
    and "\<not> is_greedy w"
  shows "run_instruction tr regs prog ip = (tr @ [Executed ip], Inr (regs', Some ip'))"
  using assms by (subst run_instruction.simps) simp

lemmas dispatch_defs =
  FORMAT_MASK_def
  FORMAT_N_def FORMAT_T_def FORMAT_D_def FORMAT_S_def FORMAT_F_def FORMAT_E_def FORMAT_R_def
  NOOP_def HALT_def EBREAK_def ADD_def SUB_def MUL_def DIV_def CALL_def DELETE_def ATOM_def
  LUI_def LUIU_def ADDI_def ADDIU_def

lemma execute_E_word:
  assumes "ip < length prog" and "prog ! ip = E_encode i" and "e_immediate i < 2 ^ 36"
    and "e_opcode i AND OPCODE_MASK = op" and "op = LUI \<or> op = LUIU"
  shows "execute regs prog ip
    = continue_at ip ((if op = LUI then execute_LUI else execute_LUIU) regs i)"
proof -
  have m: "ucast (prog ! ip AND ucast OPCODE_MASK) = op"
    using assms(2,4) by (simp add: masked_opcode_of opcode_of_E_encode)
  have d: "E_decode (prog ! ip) = i"
    using assms(2,3) by (simp add: E_roundtrip)
  from assms(5) show ?thesis
  proof
    assume "op = LUI"
    with assms(1) m d show ?thesis
      by (simp add: execute_def fetch_def and_then_def Let_def dispatch_defs)
  next
    assume "op = LUIU"
    with assms(1) m d show ?thesis
      by (simp add: execute_def fetch_def and_then_def Let_def dispatch_defs)
  qed
qed

lemma execute_R_word:
  assumes "ip < length prog" and "prog ! ip = R_encode i" and "r_immediate i < 2 ^ 24"
    and "r_opcode i AND OPCODE_MASK = op" and "op = ADDI \<or> op = ADDIU"
  shows "execute regs prog ip
    = continue_at ip ((if op = ADDI then execute_ADDI else execute_ADDIU) regs i)"
proof -
  have m: "ucast (prog ! ip AND ucast OPCODE_MASK) = op"
    using assms(2,4) by (simp add: masked_opcode_of opcode_of_R_encode)
  have d: "R_decode (prog ! ip) = i"
    using assms(2,3) by (simp add: R_roundtrip)
  from assms(5) show ?thesis
  proof
    assume "op = ADDI"
    with assms(1) m d show ?thesis
      by (simp add: execute_def fetch_def and_then_def Let_def dispatch_defs)
  next
    assume "op = ADDIU"
    with assms(1) m d show ?thesis
      by (simp add: execute_def fetch_def and_then_def Let_def dispatch_defs)
  qed
qed

lemma execute_T_word:
  assumes "ip < length prog" and "prog ! ip = T_encode i"
    and "t_opcode i AND OPCODE_MASK = op" and "op = ADD \<or> op = MUL"
  shows "execute regs prog ip
    = continue_at ip ((if op = ADD then execute_ADD else execute_MUL) regs i)"
proof -
  have m: "ucast (prog ! ip AND ucast OPCODE_MASK) = op"
    using assms(2,3) by (simp add: masked_opcode_of opcode_of_T_encode)
  have d: "T_decode (prog ! ip) = i"
    using assms(2) by (simp add: T_roundtrip)
  from assms(4) show ?thesis
  proof
    assume "op = ADD"
    with assms(1) m d show ?thesis
      by (simp add: execute_def fetch_def and_then_def Let_def dispatch_defs)
  next
    assume "op = MUL"
    with assms(1) m d show ?thesis
      by (simp add: execute_def fetch_def and_then_def Let_def dispatch_defs)
  qed
qed

lemma run_instruction_unfold:
  assumes "ip < length prog"
  shows "run_instruction tr regs prog ip =
    (case execute regs prog ip of
       Inl e \<Rightarrow> (tr @ [Executed ip], Inl e)
     | Inr (regs', None) \<Rightarrow> (tr @ [Executed ip], Inr (regs', None))
     | Inr (regs', Some ip') \<Rightarrow>
         if is_greedy (prog ! ip) then run_instruction (tr @ [Executed ip]) regs' prog ip'
         else (tr @ [Executed ip], Inr (regs', Some ip')))"
  using assms by (subst run_instruction.simps) (simp add: fetch_def)

lemma greedy_or:
  "(GREEDY OR op) AND OPCODE_MASK = op AND OPCODE_MASK"
  "(GREEDY OR op) AND GREEDY \<noteq> 0"
proof -
  show "(GREEDY OR op) AND OPCODE_MASK = op AND OPCODE_MASK"
    unfolding GREEDY_def OPCODE_MASK_def
    by (simp add: bit.conj_disj_distrib2)
  have "bit ((GREEDY OR op) AND GREEDY) 15"
    by (simp add: bit_simps GREEDY_def)
  then show "(GREEDY OR op) AND GREEDY \<noteq> 0"
    by (metis bit_0_eq bot_apply bot_bool_def)
qed

lemma exec_lui_word:
  assumes "li_variant lui addi tag" and "ip < length prog"
    and "prog ! ip = E_encode \<lparr>e_opcode = oc, e_out = make_local k, e_immediate = h\<rparr>"
    and "oc = lui \<or> oc = GREEDY OR lui"
    and "h < 2 ^ 36" and "length regs = 256"
  shows "execute regs prog ip
    = Inr (regs[unat k := \<lparr>type_of_unboxed = tag, value_of = U64 (push_bit 28 h)\<rparr>], Some (ip + 1))"
proof -
  have l: "lui = LUI \<or> lui = LUIU"
    using assms(1) by (auto simp add: li_variant_def)
  have "lui AND OPCODE_MASK = lui"
    using l by (auto simp add: opcode_defs)
  with assms(4) have m: "oc AND OPCODE_MASK = lui"
    by (auto simp add: greedy_or)
  have "execute regs prog ip = continue_at ip ((if lui = LUI then execute_LUI else execute_LUIU)
      regs \<lparr>e_opcode = oc, e_out = make_local k, e_immediate = h\<rparr>)"
    by (rule execute_E_word [OF assms(2,3)]) (use assms(5) m l in simp_all)
  moreover have "LUIU \<noteq> LUI"
    by (simp add: opcode_defs)
  ultimately show ?thesis
    using assms(1,6)
    by (auto simp add: li_variant_def continue_at_def and_then_def execute_LUI_def
        execute_LUIU_def at_256 store_def make_local_def)
qed

lemma exec_addi_word:
  assumes "li_variant lui addi tag" and "ip < length prog"
    and "prog ! ip = R_encode \<lparr>r_opcode = oc, r_out = make_local k, r_in = make_void,
                                r_immediate = x\<rparr>"
    and "oc = addi \<or> oc = GREEDY OR addi"
    and "x < 2 ^ 24" and "length regs = 256"
  shows "execute regs prog ip
    = Inr (regs[unat k := \<lparr>type_of_unboxed = tag, value_of = U64 (ucast x)\<rparr>], Some (ip + 1))"
proof -
  have l: "addi = ADDI \<or> addi = ADDIU"
    using assms(1) by (auto simp add: li_variant_def)
  have "addi AND OPCODE_MASK = addi"
    using l by (auto simp add: opcode_defs)
  with assms(4) have m: "oc AND OPCODE_MASK = addi"
    by (auto simp add: greedy_or)
  have "execute regs prog ip = continue_at ip ((if addi = ADDI then execute_ADDI else execute_ADDIU)
      regs \<lparr>r_opcode = oc, r_out = make_local k, r_in = make_void, r_immediate = x\<rparr>)"
    by (rule execute_R_word [OF assms(2,3)]) (use assms(5) m l in simp_all)
  moreover have "ADDIU \<noteq> ADDI"
    by (simp add: opcode_defs)
  ultimately show ?thesis
    using assms(1,6)
    by (auto simp add: li_variant_def continue_at_def and_then_def execute_ADDI_def
        execute_ADDIU_def addi_base_def is_void_access_def at_256 store_def make_local_def
        make_void_def)
qed

lemma exec_arith_word:
  assumes "ip < length prog"
    and "prog ! ip = T_encode \<lparr>t_opcode = oc, t_out = make_local k, t_lhs = make_local a,
                                t_rhs = make_local b\<rparr>"
    and "oc AND OPCODE_MASK = op" and "op = ADD \<or> op = MUL"
    and "length regs = 256"
    and "value_of (regs ! unat a) = U64 x" and "value_of (regs ! unat b) = U64 y"
  shows "execute regs prog ip
    = Inr (regs[unat k := \<lparr>type_of_unboxed = type_of_unboxed (regs ! unat a),
                             value_of = U64 (if op = ADD then x + y else x * y)\<rparr>],
           Some (ip + 1))"
proof -
  have "execute regs prog ip = continue_at ip ((if op = ADD then execute_ADD else execute_MUL)
      regs \<lparr>t_opcode = oc, t_out = make_local k, t_lhs = make_local a, t_rhs = make_local b\<rparr>)"
    by (rule execute_T_word [OF assms(1,2)]) (use assms(3,4) in simp_all)
  moreover have "MUL \<noteq> ADD"
    by (simp add: opcode_defs)
  ultimately show ?thesis
    using assms(4,5,6,7)
    by (auto simp add: continue_at_def and_then_def execute_ADD_def execute_MUL_def
        execute_arith_def get_uint64_def at_256 store_def make_local_def)
qed

lemma low_base: "((low :: 32 word) - low mod 16) div 16 = low div 16"
proof -
  have "low - low mod 16 = low div 16 * 16"
    using word_mod_div_equality [of low 16] by (simp add: algebra_simps)
  moreover have "low div 16 * 16 div 16 = low div 16"
  proof (rule word_div_mult)
    show "0 < (16 :: 32 word)" by simp
    have "unat (low div 16) * 16 \<le> unat low"
      by (simp add: unat_div)
    also have "\<dots> < 2 ^ LENGTH(32)"
      by (rule unsigned_less)
    finally show "unat (low div 16) * unat (16 :: 32 word) < 2 ^ LENGTH(32)"
      by simp
  qed
  ultimately show ?thesis by simp
qed

lemma loading_parts:
  "to_loading_parts_unsigned v =
     (if take_bit 28 v < 2 ^ 24 then (drop_bit 28 v, ((ucast (take_bit 28 v), 0), 0))
      else (drop_bit 28 v,
            ((ucast (take_bit 28 v) div 16, 16), ucast (take_bit 28 v) mod 16)))"
proof -
  have h: "drop_bit 28 (v AND HIGH_36) = drop_bit 28 v"
    unfolding HIGH_36_mask
    by (rule bit_word_eqI) (auto simp add: bit_simps dest: bit_imp_le_length)
  have l: "(ucast (v AND NOT HIGH_36) :: 32 word) = ucast (take_bit 28 v)"
    unfolding HIGH_36_mask by (rule bit_word_eqI) (auto simp add: bit_simps)
  have c: "(ucast (ucast (take_bit 28 v) :: 32 word) :: 64 word) = take_bit 28 v"
    by (rule bit_word_eqI) (auto simp add: bit_simps)
  have t: "take_bit 28 v AND LOW_24 = take_bit 28 v \<longleftrightarrow> take_bit 28 v < 2 ^ 24"
    unfolding LOW_24_mask
    using mask_eq_iff_w2p [of 24 "take_bit 28 v"] by (simp add: word_size)
  show ?thesis
    unfolding to_loading_parts_unsigned_def Let_def h l c low_base t
    by simp
qed

lemma low_part_facts:
  fixes v :: "64 word"
  defines "low \<equiv> (ucast (take_bit 28 v) :: 32 word)"
  shows "(ucast low :: 64 word) = take_bit 28 v"
    and "unat low < 2 ^ 28"
    and "low < 2 ^ 24 \<longleftrightarrow> take_bit 28 v < 2 ^ 24"
    and "low div 16 < 2 ^ 24"
    and "low mod 16 < 2 ^ 24"
    and "(ucast (low div 16) :: 64 word) * 16 + ucast (low mod 16) = take_bit 28 v"
proof -
  show c: "(ucast low :: 64 word) = take_bit 28 v"
    unfolding low_def by (rule bit_word_eqI) (auto simp add: bit_simps)
  have t: "unat (take_bit 28 v) < 2 ^ 28"
    using take_bit_nat_less_exp [of 28 "unat v"] by (simp add: unsigned_take_bit_eq)
  have "unat low = take_bit 32 (unat (take_bit 28 v))"
    unfolding low_def by (simp add: unsigned_ucast_eq)
  also have "\<dots> = unat (take_bit 28 v)"
    using t by (intro take_bit_nat_eq_self) simp
  finally have u: "unat low = unat (take_bit 28 v)" .
  with t show b: "unat low < 2 ^ 28"
    by simp
  show "low < 2 ^ 24 \<longleftrightarrow> take_bit 28 v < 2 ^ 24"
    by (simp add: word_less_nat_alt u)
  show "low div 16 < 2 ^ 24"
    using b by (simp add: word_less_nat_alt unat_div)
  have "unat low mod 16 < 16"
    by simp
  then show "low mod 16 < 2 ^ 24"
    by (simp add: word_less_nat_alt unat_mod)
  have "(ucast (low div 16) :: 64 word) * 16 + ucast (low mod 16)
      = of_nat (unat (low div 16)) * of_nat 16 + of_nat (unat (low mod 16))"
    by simp
  also have "\<dots> = of_nat (unat low div 16 * 16 + unat low mod 16)"
    by (simp only: of_nat_add of_nat_mult unat_div unat_mod) simp
  also have "\<dots> = of_nat (unat low)"
    by (simp only: div_mult_mod_eq)
  also have "\<dots> = ucast low"
    by simp
  finally show "(ucast (low div 16) :: 64 word) * 16 + ucast (low mod 16) = take_bit 28 v"
    by (simp add: c)
qed

lemma high_part_width: "drop_bit 28 (v :: 64 word) < 2 ^ 36"
proof -
  have "drop_bit 28 v = drop_bit 28 v AND mask 36"
    by (rule bit_word_eqI) (auto simp add: bit_simps dest: bit_imp_le_length)
  moreover have "drop_bit 28 v AND mask 36 < 2 ^ 36"
    by (rule and_mask_less') simp
  ultimately show ?thesis
    by simp
qed

lemma GREEDY_nonzero: "GREEDY \<noteq> 0"
  by (simp add: GREEDY_def)

lemma li_not_greedy:
  assumes "li_variant lui addi tag"
  shows "addi AND GREEDY = 0" and "ADD AND GREEDY = 0"
  using assms by (auto simp add: li_variant_def opcode_defs)

lemma li_lui_step:
  assumes "li_variant lui addi tag" and "0 < length prog"
    and "prog ! 0 = E_encode \<lparr>e_opcode = GREEDY OR lui, e_out = make_local 1, e_immediate = h\<rparr>"
    and "h < 2 ^ 36" and "length regs = 256"
  shows "run_instruction tr regs prog 0
    = run_instruction (tr @ [Executed 0])
        (regs[1 := \<lparr>type_of_unboxed = tag, value_of = U64 (push_bit 28 h)\<rparr>]) prog 1"
proof -
  have "execute regs prog 0
      = Inr (regs[unat (1 :: 8 word) := \<lparr>type_of_unboxed = tag, value_of = U64 (push_bit 28 h)\<rparr>],
             Some (0 + 1))"
    by (rule exec_lui_word [OF assms(1,2,3) _ assms(4,5)]) simp
  moreover have "is_greedy (prog ! 0)"
    by (simp add: assms(3) is_greedy_opcode_of opcode_of_E_encode greedy_or GREEDY_nonzero)
  ultimately show ?thesis
    using assms(2) by (simp add: run_instruction_unfold)
qed

lemma li_single_step:
  assumes "li_variant lui addi tag" and "k < length prog"
    and "prog ! k = R_encode \<lparr>r_opcode = addi, r_out = make_local 1, r_in = make_void,
                               r_immediate = x\<rparr>"
    and "x < 2 ^ 24" and "length regs = 256"
  shows "run_instruction tr regs prog k
    = (tr @ [Executed k],
       Inr (regs[1 := \<lparr>type_of_unboxed = tag, value_of = U64 (ucast x)\<rparr>], Some (k + 1)))"
proof -
  have "execute regs prog k
      = Inr (regs[unat (1 :: 8 word) := \<lparr>type_of_unboxed = tag, value_of = U64 (ucast x)\<rparr>],
             Some (k + 1))"
    by (rule exec_addi_word [OF assms(1,2,3) _ assms(4,5)]) simp
  moreover have "\<not> is_greedy (prog ! k)"
    using li_not_greedy(1) [OF assms(1)]
    by (simp add: assms(3) is_greedy_opcode_of opcode_of_R_encode)
  ultimately show ?thesis
    using assms(2) by (simp add: run_instruction_unfold)
qed

lemma li_long_tail:
  assumes V: "li_variant lui addi tag" and len: "k + 5 < length prog"
    and p0: "prog ! k = R_encode \<lparr>r_opcode = GREEDY OR addi, r_out = make_local 2,
                                   r_in = make_void, r_immediate = b\<rparr>"
    and p1: "prog ! (k + 1) = R_encode \<lparr>r_opcode = GREEDY OR addi, r_out = make_local 3,
                                         r_in = make_void, r_immediate = m\<rparr>"
    and p2: "prog ! (k + 2) = T_encode \<lparr>t_opcode = GREEDY OR MUL, t_out = make_local 2,
                                         t_lhs = make_local 2, t_rhs = make_local 3\<rparr>"
    and p3: "prog ! (k + 3) = R_encode \<lparr>r_opcode = GREEDY OR addi, r_out = make_local 3,
                                         r_in = make_void, r_immediate = r\<rparr>"
    and p4: "prog ! (k + 4) = T_encode \<lparr>t_opcode = GREEDY OR ADD, t_out = make_local 2,
                                         t_lhs = make_local 2, t_rhs = make_local 3\<rparr>"
    and p5: "prog ! (k + 5) = T_encode \<lparr>t_opcode = ADD, t_out = make_local 1,
                                         t_lhs = make_local 1, t_rhs = make_local 2\<rparr>"
    and w: "b < 2 ^ 24" "m < 2 ^ 24" "r < 2 ^ 24"
    and regs: "length regs = 256" "value_of (regs ! 1) = U64 y"
  shows "\<exists>regs'. run_instruction tr regs prog k
                   = (tr @ map Executed [k..<k + 6], Inr (regs', Some (k + 6)))
           \<and> regs' ! 1 = \<lparr>type_of_unboxed = type_of_unboxed (regs ! 1),
                           value_of = U64 (y + (ucast b * ucast m + ucast r))\<rparr>"
proof -
  define regs1 where "regs1 = regs[2 := \<lparr>type_of_unboxed = tag, value_of = U64 (ucast b)\<rparr>]"
  define regs2 where "regs2 = regs1[3 := \<lparr>type_of_unboxed = tag, value_of = U64 (ucast m)\<rparr>]"
  define regs3 where
    "regs3 = regs2[2 := \<lparr>type_of_unboxed = tag, value_of = U64 (ucast b * ucast m)\<rparr>]"
  define regs4 where "regs4 = regs3[3 := \<lparr>type_of_unboxed = tag, value_of = U64 (ucast r)\<rparr>]"
  define regs5 where
    "regs5 = regs4[2 := \<lparr>type_of_unboxed = tag, value_of = U64 (ucast b * ucast m + ucast r)\<rparr>]"
  define regs6 where
    "regs6 = regs5[1 := \<lparr>type_of_unboxed = type_of_unboxed (regs ! 1),
                          value_of = U64 (y + (ucast b * ucast m + ucast r))\<rparr>]"
  note defs = regs1_def regs2_def regs3_def regs4_def regs5_def regs6_def
  have l: "length regs1 = 256" "length regs2 = 256" "length regs3 = 256" "length regs4 = 256"
    "length regs5 = 256"
    by (simp_all add: defs regs(1))
  have m: "(GREEDY OR MUL) AND OPCODE_MASK = MUL" "(GREEDY OR ADD) AND OPCODE_MASK = ADD"
    "ADD AND OPCODE_MASK = ADD"
    by (simp_all add: opcode_defs)
  have e0: "execute regs prog k = Inr (regs1, Some (k + 1))"
    using exec_addi_word [OF V _ p0 _ w(1) regs(1)] len by (simp add: regs1_def)
  have e1: "execute regs1 prog (k + 1) = Inr (regs2, Some (k + 2))"
    using exec_addi_word [OF V _ p1 _ w(2) l(1)] len by (simp add: regs2_def)
  have e2: "execute regs2 prog (k + 2) = Inr (regs3, Some (k + 3))"
    using exec_arith_word [OF _ p2 m(1) _ l(2), of "ucast b" "ucast m"] len regs(1)
    by (simp add: defs) (simp add: opcode_defs)
  have e3: "execute regs3 prog (k + 3) = Inr (regs4, Some (k + 4))"
    using exec_addi_word [OF V _ p3 _ w(3) l(3)] len by (simp add: regs4_def)
  have e4: "execute regs4 prog (k + 4) = Inr (regs5, Some (k + 5))"
    using exec_arith_word [OF _ p4 m(2) _ l(4), of "ucast b * ucast m" "ucast r"] len regs(1)
    by (simp add: defs)
  have e5: "execute regs5 prog (k + 5) = Inr (regs6, Some (k + 6))"
    using exec_arith_word [OF _ p5 m(3) _ l(5), of y "ucast b * ucast m + ucast r"] len regs
    by (simp add: defs)
  have g: "is_greedy (prog ! k)" "is_greedy (prog ! (k + 1))" "is_greedy (prog ! (k + 2))"
    "is_greedy (prog ! (k + 3))" "is_greedy (prog ! (k + 4))" "\<not> is_greedy (prog ! (k + 5))"
    unfolding p0 p1 p2 p3 p4 p5 is_greedy_opcode_of opcode_of_R_encode opcode_of_T_encode
    using li_not_greedy [OF V]
    by (simp_all add: greedy_or GREEDY_nonzero)
  have f: "fetch prog (k + i) = Inr (prog ! (k + i))" if "i \<le> 5" for i
    using that len by (simp add: fetch_def)
  have "run_instruction tr regs prog k
      = run_instruction (tr @ [Executed k]) regs1 prog (k + 1)"
    using f [of 0] e0 g(1) by (intro run_instruction_greedy_step) simp_all
  also have "\<dots> = run_instruction (tr @ [Executed k, Executed (k + 1)]) regs2 prog (k + 2)"
    using run_instruction_greedy_step [OF f [of 1] e1 g(2), of "tr @ [Executed k]"] by simp
  also have "\<dots> = run_instruction (tr @ [Executed k, Executed (k + 1), Executed (k + 2)])
      regs3 prog (k + 3)"
    using run_instruction_greedy_step [OF f [of 2] e2 g(3), of "tr @ [Executed k, Executed (k + 1)]"]
    by simp
  also have "\<dots> = run_instruction
      (tr @ [Executed k, Executed (k + 1), Executed (k + 2), Executed (k + 3)]) regs4 prog (k + 4)"
    using run_instruction_greedy_step [OF f [of 3] e3 g(4),
        of "tr @ [Executed k, Executed (k + 1), Executed (k + 2)]"]
    by simp
  also have "\<dots> = run_instruction
      (tr @ [Executed k, Executed (k + 1), Executed (k + 2), Executed (k + 3), Executed (k + 4)])
      regs5 prog (k + 5)"
    using run_instruction_greedy_step [OF f [of 4] e4 g(5),
        of "tr @ [Executed k, Executed (k + 1), Executed (k + 2), Executed (k + 3)]"]
    by simp
  also have "\<dots> =
      (tr @ [Executed k, Executed (k + 1), Executed (k + 2), Executed (k + 3), Executed (k + 4),
             Executed (k + 5)], Inr (regs6, Some (k + 6)))"
    using run_instruction_last_step [OF f [of 5] e5 g(6),
        of "tr @ [Executed k, Executed (k + 1), Executed (k + 2), Executed (k + 3),
                  Executed (k + 4)]"]
    by simp
  finally have "run_instruction tr regs prog k
      = (tr @ map Executed [k..<k + 6], Inr (regs6, Some (k + 6)))"
    by (simp add: upt_rec [of k] upt_rec [of "Suc k"] upt_rec [of "Suc (Suc k)"]
        upt_rec [of "Suc (Suc (Suc k))"] upt_rec [of "Suc (Suc (Suc (Suc k)))"]
        upt_rec [of "Suc (Suc (Suc (Suc (Suc k))))"] upt_rec [of "Suc (Suc (Suc (Suc (Suc (Suc k)))))"])
  moreover have "regs6 ! 1 = \<lparr>type_of_unboxed = type_of_unboxed (regs ! 1),
      value_of = U64 (y + (ucast b * ucast m + ucast r))\<rparr>"
    by (simp add: defs regs(1))
  ultimately show ?thesis
    by blast
qed

lemma clean_registers_facts:
  "length clean_registers = 256"
  "clean_registers ! 1 = \<lparr>type_of_unboxed = Void, value_of = U64 0\<rparr>"
  "clean_registers ! Suc 0 = \<lparr>type_of_unboxed = Void, value_of = U64 0\<rparr>"
  by (simp_all add: clean_registers_def Value_init_def)

lemma op_li_with_result:
  assumes V: "li_variant lui addi tag"
  shows "\<exists>regs'. snd (run_instruction tr clean_registers (op_li_with lui addi v) 0)
             = Inr (regs', Some (length (op_li_with lui addi v)))
           \<and> regs' ! 1 =
               (if take_bit 28 v < 2 ^ 24
                then \<lparr>type_of_unboxed = tag, value_of = U64 (take_bit 28 v)\<rparr>
                else \<lparr>type_of_unboxed = (if drop_bit 28 v = 0 then Void else tag),
                      value_of = U64 v\<rparr>)"
proof -
  define low where "low = (ucast (take_bit 28 v) :: 32 word)"
  define h where "h = drop_bit 28 v"
  define prog where "prog = op_li_with lui addi v"
  define regs1 where
    "regs1 = clean_registers[1 := \<lparr>type_of_unboxed = tag, value_of = U64 (push_bit 28 h)\<rparr>]"
  note low = low_part_facts [of v, folded low_def]
  have hw: "h < 2 ^ 36"
    unfolding h_def by (rule high_part_width)
  have join: "push_bit 28 h + take_bit 28 v = v"
    unfolding h_def by (rule bits_ident)
  have r1: "length regs1 = 256"
    "regs1 ! 1 = \<lparr>type_of_unboxed = tag, value_of = U64 (push_bit 28 h)\<rparr>"
    "regs1 ! Suc 0 = \<lparr>type_of_unboxed = tag, value_of = U64 (push_bit 28 h)\<rparr>"
    by (simp_all add: regs1_def clean_registers_facts)
  have sixteen: "(ucast (16 :: 32 word) :: 64 word) = 16" "(16 :: 32 word) < 2 ^ 24"
    by simp_all
  consider (A) "h = 0" "take_bit 28 v < 2 ^ 24" | (B) "h \<noteq> 0" "take_bit 28 v < 2 ^ 24"
    | (C) "h = 0" "\<not> take_bit 28 v < 2 ^ 24" | (D) "h \<noteq> 0" "\<not> take_bit 28 v < 2 ^ 24"
    by blast
  then show ?thesis
  proof cases
    case A
    have p: "prog = [R_encode \<lparr>r_opcode = addi, r_out = make_local 1, r_in = make_void,
                                r_immediate = low\<rparr>]"
      using A by (simp add: prog_def op_li_with_def loading_parts h_def low_def)
    have "run_instruction tr clean_registers prog 0
        = (tr @ [Executed 0],
           Inr (clean_registers[1 := \<lparr>type_of_unboxed = tag, value_of = U64 (ucast low)\<rparr>],
                Some (0 + 1)))"
      using A low(3) by (intro li_single_step [OF V]) (simp_all add: p clean_registers_facts)
    then show ?thesis
      using A by (simp add: prog_def [symmetric] p low(1) clean_registers_facts)
  next
    case B
    have p: "prog = [E_encode \<lparr>e_opcode = GREEDY OR lui, e_out = make_local 1,
                                e_immediate = h\<rparr>,
                     R_encode \<lparr>r_opcode = addi, r_out = make_local 1, r_in = make_void,
                                r_immediate = low\<rparr>]"
      using B by (simp add: prog_def op_li_with_def loading_parts h_def low_def)
    have "run_instruction tr clean_registers prog 0
        = run_instruction (tr @ [Executed 0]) regs1 prog 1"
      unfolding regs1_def using hw
      by (intro li_lui_step [OF V]) (simp_all add: p clean_registers_facts)
    also have "\<dots> = (tr @ [Executed 0] @ [Executed 1],
           Inr (regs1[1 := \<lparr>type_of_unboxed = tag, value_of = U64 (ucast low)\<rparr>], Some (1 + 1)))"
      using B low(3) li_single_step [OF V, of 1 prog low regs1 "tr @ [Executed 0]"]
      by (simp add: p r1)
    finally show ?thesis
      using B by (simp add: prog_def [symmetric] p low(1) r1)
  next
    case C
    have p: "prog = [R_encode \<lparr>r_opcode = GREEDY OR addi, r_out = make_local 2,
                            r_in = make_void, r_immediate = low div 16\<rparr>,
                  R_encode \<lparr>r_opcode = GREEDY OR addi, r_out = make_local 3,
                            r_in = make_void, r_immediate = 16\<rparr>,
                  T_encode \<lparr>t_opcode = GREEDY OR MUL, t_out = make_local 2,
                            t_lhs = make_local 2, t_rhs = make_local 3\<rparr>,
                  R_encode \<lparr>r_opcode = GREEDY OR addi, r_out = make_local 3,
                            r_in = make_void, r_immediate = low mod 16\<rparr>,
                  T_encode \<lparr>t_opcode = GREEDY OR ADD, t_out = make_local 2,
                            t_lhs = make_local 2, t_rhs = make_local 3\<rparr>,
                  T_encode \<lparr>t_opcode = ADD, t_out = make_local 1,
                            t_lhs = make_local 1, t_rhs = make_local 2\<rparr>]"
      using C by (simp add: prog_def op_li_with_def loading_parts h_def low_def)
    have "\<exists>regs'. run_instruction tr clean_registers prog 0
             = (tr @ map Executed [0..<0 + 6], Inr (regs', Some (0 + 6)))
           \<and> regs' ! 1 = \<lparr>type_of_unboxed = type_of_unboxed (clean_registers ! 1),
                 value_of = U64 (0 + (ucast (low div 16) * ucast (16 :: 32 word)
                                      + ucast (low mod 16)))\<rparr>"
      using low(4,5) sixteen(2)
      by (intro li_long_tail [OF V]) (simp_all add: p clean_registers_facts)
    moreover have "take_bit 28 v = v"
      using join C(1) by simp
    ultimately show ?thesis
      using C by (auto simp add: prog_def [symmetric] p low(6) sixteen(1) clean_registers_facts
          h_def)
  next
    case D
    have p: "prog = [E_encode \<lparr>e_opcode = GREEDY OR lui, e_out = make_local 1,
                                e_immediate = h\<rparr>,
                  R_encode \<lparr>r_opcode = GREEDY OR addi, r_out = make_local 2,
                            r_in = make_void, r_immediate = low div 16\<rparr>,
                  R_encode \<lparr>r_opcode = GREEDY OR addi, r_out = make_local 3,
                            r_in = make_void, r_immediate = 16\<rparr>,
                  T_encode \<lparr>t_opcode = GREEDY OR MUL, t_out = make_local 2,
                            t_lhs = make_local 2, t_rhs = make_local 3\<rparr>,
                  R_encode \<lparr>r_opcode = GREEDY OR addi, r_out = make_local 3,
                            r_in = make_void, r_immediate = low mod 16\<rparr>,
                  T_encode \<lparr>t_opcode = GREEDY OR ADD, t_out = make_local 2,
                            t_lhs = make_local 2, t_rhs = make_local 3\<rparr>,
                  T_encode \<lparr>t_opcode = ADD, t_out = make_local 1,
                            t_lhs = make_local 1, t_rhs = make_local 2\<rparr>]"
      using D by (simp add: prog_def op_li_with_def loading_parts h_def low_def)
    have first: "run_instruction tr clean_registers prog 0
        = run_instruction (tr @ [Executed 0]) regs1 prog 1"
      unfolding regs1_def using hw
      by (intro li_lui_step [OF V]) (simp_all add: p clean_registers_facts)
    have "\<exists>regs'. run_instruction (tr @ [Executed 0]) regs1 prog 1
             = ((tr @ [Executed 0]) @ map Executed [1..<1 + 6], Inr (regs', Some (1 + 6)))
           \<and> regs' ! 1 = \<lparr>type_of_unboxed = type_of_unboxed (regs1 ! 1),
                 value_of = U64 (push_bit 28 h + (ucast (low div 16) * ucast (16 :: 32 word)
                                      + ucast (low mod 16)))\<rparr>"
      using low(4,5) sixteen(2)
      by (intro li_long_tail [OF V]) (simp_all add: p r1)
    then obtain regs' where
      "run_instruction tr clean_registers prog 0
         = ((tr @ [Executed 0]) @ map Executed [1..<1 + 6], Inr (regs', Some (1 + 6)))"
      and "regs' ! 1 = \<lparr>type_of_unboxed = tag, value_of = U64 v\<rparr>"
      unfolding first sixteen(1) low(6) join r1(2) by auto
    moreover have "length prog = 1 + 6" "drop_bit 28 v \<noteq> 0"
      using D(1) by (simp_all add: p h_def)
    ultimately show ?thesis
      unfolding prog_def [symmetric] using D(2) by simp

  qed
qed

lemma op_li_unsigned_result:
  "\<exists>regs'. snd (run_instruction tr clean_registers (op_li_unsigned v) 0)
             = Inr (regs', Some (length (op_li_unsigned v)))
           \<and> regs' ! 1 =
               (if take_bit 28 v < 2 ^ 24
                then \<lparr>type_of_unboxed = Integer_unsigned, value_of = U64 (take_bit 28 v)\<rparr>
                else \<lparr>type_of_unboxed = (if drop_bit 28 v = 0 then Void else Integer_unsigned),
                      value_of = U64 v\<rparr>)"
  unfolding op_li_unsigned_def by (rule op_li_with_result) (simp add: li_variant_def)

lemma op_li_signed_result:
  "\<exists>regs'. snd (run_instruction tr clean_registers (op_li_signed v) 0)
             = Inr (regs', Some (length (op_li_signed v)))
           \<and> regs' ! 1 =
               (if take_bit 28 v < 2 ^ 24
                then \<lparr>type_of_unboxed = Integer_signed, value_of = U64 (take_bit 28 v)\<rparr>
                else \<lparr>type_of_unboxed = (if drop_bit 28 v = 0 then Void else Integer_signed),
                      value_of = U64 v\<rparr>)"
  unfolding op_li_signed_def by (rule op_li_with_result) (simp add: li_variant_def)

lemma op_li_unsigned_loads_iff:
  "(\<exists>regs' p. snd (run_instruction tr clean_registers (op_li_unsigned v) 0) = Inr (regs', p)
              \<and> regs' ! 1 = \<lparr>type_of_unboxed = Integer_unsigned, value_of = U64 v\<rparr>)
   \<longleftrightarrow> (take_bit 28 v < 2 ^ 24 \<longleftrightarrow> drop_bit 28 v = 0)"
proof -
  obtain regs' where r: "snd (run_instruction tr clean_registers (op_li_unsigned v) 0)
             = Inr (regs', Some (length (op_li_unsigned v)))"
    and v: "regs' ! 1 =
               (if take_bit 28 v < 2 ^ 24
                then \<lparr>type_of_unboxed = Integer_unsigned, value_of = U64 (take_bit 28 v)\<rparr>
                else \<lparr>type_of_unboxed = (if drop_bit 28 v = 0 then Void else Integer_unsigned),
                      value_of = U64 v\<rparr>)"
    using op_li_unsigned_result [of tr v] by blast
  have "regs' ! 1 = \<lparr>type_of_unboxed = Integer_unsigned, value_of = U64 v\<rparr>
      \<longleftrightarrow> (take_bit 28 v < 2 ^ 24 \<longleftrightarrow> drop_bit 28 v = 0)"
    unfolding v using take_bit_eq_self_iff_drop_bit_eq_0 [of 28 v] by auto
  then show ?thesis
    unfolding r by simp
qed

section \<open>Greedy bundles\<close>

lemma fetch_Inr: "fetch prog ip = Inr w \<longleftrightarrow> ip < length prog \<and> w = prog ! ip"
  by (auto simp add: fetch_def)

lemma execute_next:
  assumes "execute regs prog ip = Inr (regs', Some ip')"
  shows "ip' = ip + 1"
  using assms
  by (auto simp add: execute_def fetch_def and_then_def continue_at_def Let_def
      split: if_splits sum.splits)

lemma run_instruction_trace:
  assumes "run_instruction tr regs prog ip = (tr', r)"
  shows "\<exists>q. tr' = tr @ map Executed [ip..<q] \<and> ip \<le> q
           \<and> (ip < length prog \<longrightarrow> ip < q)
           \<and> (\<forall>j. ip \<le> j \<and> Suc j < q \<longrightarrow> is_greedy (prog ! j))
           \<and> (case r of
                 Inl e \<Rightarrow> True
               | Inr (regs', None) \<Rightarrow> ip < q
               | Inr (regs', Some p) \<Rightarrow> ip < q \<and> p = q \<and> \<not> is_greedy (prog ! (q - 1)))"
  using assms
proof (induction tr regs prog ip rule: run_instruction.induct)
  case (1 tr regs prg p)
  show ?case
  proof (cases "fetch prg p")
    case (Inl e)
    with "1.prems" have "tr' = tr" and "r = Inl e"
      by (subst (asm) run_instruction.simps, simp)+
    moreover from Inl have "\<not> p < length prg"
      by (simp add: fetch_def split: if_splits)
    ultimately show ?thesis
      by (intro exI [of _ p]) auto
  next
    case (Inr w)
    then have w: "w = prg ! p"
      by (simp add: fetch_Inr)
    show ?thesis
    proof (cases "execute regs prg p")
      case (Inl e)
      with "1.prems" Inr have "tr' = tr @ [Executed p]" and "r = Inl e"
        by (subst (asm) run_instruction.simps, simp)+
      then show ?thesis
        by (intro exI [of _ "Suc p"]) auto
    next
      case x: (Inr st)
      obtain regs2 nx where st: "st = (regs2, nx)"
        by (cases st)
      show ?thesis
      proof (cases "\<exists>p'. nx = Some p' \<and> is_greedy w")
        case True
        then obtain p' where nx: "nx = Some p'" and g: "is_greedy w"
          by blast
        from x st nx have p': "p' = p + 1"
          by (auto dest: execute_next)
        from "1.prems" Inr x st nx g
        have rec: "run_instruction (tr @ [Executed p]) regs2 prg p' = (tr', r)"
          by (subst (asm) run_instruction.simps) simp
        from "1.IH" [OF Inr x [unfolded st] refl nx g rec]
        obtain q where q: "tr' = (tr @ [Executed p]) @ map Executed [p'..<q]" "p' \<le> q"
          "\<forall>j. p' \<le> j \<and> Suc j < q \<longrightarrow> is_greedy (prg ! j)"
          "case r of Inl e \<Rightarrow> True | Inr (regs', None) \<Rightarrow> p' < q
             | Inr (regs', Some a) \<Rightarrow> p' < q \<and> a = q \<and> \<not> is_greedy (prg ! (q - 1))"
          by blast
        from q(2) p' have pq: "p < q"
          by simp
        then have "[p..<q] = p # [p'..<q]"
          using p' by (simp add: upt_conv_Cons)
        with q(1) have "tr' = tr @ map Executed [p..<q]"
          by simp
        moreover have "is_greedy (prg ! j)" if "p \<le> j \<and> Suc j < q" for j
        proof (cases "j = p")
          case True
          with g w show ?thesis by simp
        next
          case False
          with that p' q(3) show ?thesis by simp
        qed
        moreover from q(4) p' have "case r of Inl e \<Rightarrow> True | Inr (regs', None) \<Rightarrow> p < q
             | Inr (regs', Some a) \<Rightarrow> p < q \<and> a = q \<and> \<not> is_greedy (prg ! (q - 1))"
          by (auto split: sum.splits option.splits)
        ultimately show ?thesis
          using pq by (intro exI [of _ q]) auto
      next
        case False
        with "1.prems" Inr x st have t: "tr' = tr @ [Executed p]" and r: "r = Inr (regs2, nx)"
          by (subst (asm) run_instruction.simps, auto split: option.splits)+
        have "case r of Inl e \<Rightarrow> True | Inr (regs', None) \<Rightarrow> p < Suc p
             | Inr (regs', Some a) \<Rightarrow> p < Suc p \<and> a = Suc p \<and> \<not> is_greedy (prg ! (Suc p - 1))"
          using False r w x st by (auto split: option.splits dest: execute_next)
        with t show ?thesis
          by (intro exI [of _ "Suc p"]) auto
      qed
    qed
  qed
qed


lemma follows_Halted: "follows_in_bundle prog a Halted"
  by (simp add: follows_in_bundle_def split: log.splits)

lemma follows_settled:
  "settled prog tr \<Longrightarrow> tr \<noteq> [] \<Longrightarrow> follows_in_bundle prog (last tr) b"
  by (auto simp add: settled_def follows_in_bundle_def split: log.splits)

lemma successively_segment:
  "successively (follows_in_bundle prog) (map Executed [p..<q])"
  by (simp add: successively_conv_nth follows_in_bundle_def)

lemma successively_snoc_settled:
  assumes "successively (follows_in_bundle prog) tr" and "settled prog tr"
  shows "successively (follows_in_bundle prog) (tr @ [e])"
  using assms follows_settled [of prog tr e] by (auto simp add: successively_append_iff)

lemma successively_snoc_Halted:
  assumes "successively (follows_in_bundle prog) tr"
  shows "successively (follows_in_bundle prog) (tr @ [Halted])"
  using assms by (auto simp add: successively_append_iff follows_Halted)

lemma successively_marker_segment:
  assumes "successively (follows_in_bundle prog) tr" and "settled prog tr"
    and "\<And>j. m \<noteq> Executed j"
  shows "successively (follows_in_bundle prog) ((tr @ [m]) @ map Executed [p..<q])"
proof -
  have "successively (follows_in_bundle prog) (tr @ [m])"
    using assms(1,2) by (rule successively_snoc_settled)
  moreover have "follows_in_bundle prog m b" for b
  proof (cases m)
    case (Executed j)
    with assms(3) show ?thesis by blast
  qed (simp_all add: follows_in_bundle_def)
  ultimately show ?thesis
    by (simp add: successively_append_iff successively_Cons successively_segment)
qed

lemma cycle_trace:
  assumes "cycle tr regs prog i ip = (tr', r)"
    and "successively (follows_in_bundle prog) tr"
    and "settled prog tr \<or> ip = length prog"
  shows "successively (follows_in_bundle prog) tr'
    \<and> (case r of Inl e \<Rightarrow> True | Inr (regs', ip') \<Rightarrow> settled prog tr' \<or> ip' = length prog)"
  using assms
proof (induction tr regs prog i ip rule: cycle.induct)
  case (1 tr regs prg i p)
  show ?case
  proof (cases "i < PREEMPTION_THRESHOLD \<and> p \<noteq> length prg")
    case False
    with "1.prems"(1) have "tr' = tr" and "r = Inr (regs, p)"
      by (subst (asm) cycle.simps, auto)+
    with "1.prems"(2,3) show ?thesis
      by simp
  next
    case True
    with "1.prems"(3) have st: "settled prg tr"
      by simp
    show ?thesis
    proof (cases "fetch prg p")
      case (Inl e)
      with "1.prems"(1) True have "tr' = tr" and "r = Inl e"
        by (subst (asm) cycle.simps, simp)+
      with "1.prems"(2) show ?thesis
        by simp
    next
      case (Inr w)
      define m where "m = (if is_greedy w then Bundle i else Single i)"
      obtain tr2 r2 where x: "run_instruction (tr @ [m]) regs prg p = (tr2, r2)"
        by (cases "run_instruction (tr @ [m]) regs prg p")
      from run_instruction_trace [OF x]
      obtain q where q: "tr2 = (tr @ [m]) @ map Executed [p..<q]" "p \<le> q"
        "case r2 of Inl e \<Rightarrow> True | Inr (regs', None) \<Rightarrow> p < q
           | Inr (regs', Some a) \<Rightarrow> p < q \<and> a = q \<and> \<not> is_greedy (prg ! (q - 1))"
        by blast
      have s2: "successively (follows_in_bundle prg) tr2"
        unfolding q(1) using "1.prems"(2) st
        by (rule successively_marker_segment) (simp add: m_def)
      show ?thesis
      proof (cases r2)
        case (Inl e)
        with "1.prems"(1) True Inr x have "tr' = tr2" and "r = Inl e"
          by (subst (asm) cycle.simps, simp add: m_def Let_def)+
        with s2 show ?thesis
          by simp
      next
        case r2: (Inr st2)
        obtain regs2 nx where st2: "st2 = (regs2, nx)"
          by (cases st2)
        define p' where "p' = (case nx of None \<Rightarrow> length prg | Some a \<Rightarrow> a)"
        define i' where "i' = (if is_greedy w \<and> p' \<noteq> length prg then i + (p' - p - 1) else i)"
        from "1.prems"(1) True Inr x r2 st2
        have rec: "cycle tr2 regs2 prg (i' + 1) p' = (tr', r)"
          by (subst (asm) cycle.simps) (auto simp add: Let_def m_def p'_def i'_def split: if_splits)
        have "settled prg tr2 \<or> p' = length prg"
        proof (cases nx)
          case None
          then show ?thesis by (simp add: p'_def)
        next
          case (Some a)
          with q(3) r2 st2 have "p < q" and "\<not> is_greedy (prg ! (q - 1))"
            by simp_all
          moreover from \<open>p < q\<close> have "last tr2 = Executed (q - 1)"
            unfolding q(1) by (simp add: last_map)
          ultimately show ?thesis
            by (simp add: settled_def)
        qed
        with "1.IH" [OF True Inr refl refl x [unfolded m_def, symmetric] r2 [THEN sym, THEN sym]
            st2 [symmetric] p'_def i'_def rec s2]
        show ?thesis
          by simp
      qed
    qed
  qed
qed


lemma run_trace:
  assumes "run tr regs prog ip = (tr', r)"
    and "successively (follows_in_bundle prog) tr"
    and "settled prog tr \<or> ip = length prog"
  shows "successively (follows_in_bundle prog) tr'"
  using assms
proof (induction tr regs prog ip rule: run.induct)
  case (1 tr regs prg p)
  show ?case
  proof (cases "p = length prg")
    case True
    with "1.prems"(1) have "tr' = tr"
      by (subst (asm) run.simps) simp
    with "1.prems"(2) show ?thesis
      by simp
  next
    case False
    with "1.prems"(3) have st: "settled prg tr"
      by simp
    obtain tr2 r2 where x: "cycle (tr @ [Cycle_at (p * 8)]) regs prg 0 p = (tr2, r2)"
      by (cases "cycle (tr @ [Cycle_at (p * 8)]) regs prg 0 p")
    have "successively (follows_in_bundle prg) (tr @ [Cycle_at (p * 8)])"
      using "1.prems"(2) st by (rule successively_snoc_settled)
    moreover have "settled prg (tr @ [Cycle_at (p * 8)])"
      by (simp add: settled_def)
    ultimately have c: "successively (follows_in_bundle prg) tr2"
      "case r2 of Inl e \<Rightarrow> True | Inr (regs', ip') \<Rightarrow> settled prg tr2 \<or> ip' = length prg"
      using cycle_trace [OF x] by simp_all
    show ?thesis
    proof (cases r2)
      case (Inl e)
      with "1.prems"(1) False x have "tr' = tr2"
        by (subst (asm) run.simps) simp
      with c(1) show ?thesis
        by simp
    next
      case r2: (Inr st2)
      obtain regs2 p' where st2: "st2 = (regs2, p')"
        by (cases st2)
      show ?thesis
      proof (cases "p' = length prg")
        case True
        with "1.prems"(1) False x r2 st2 have "tr' = tr2 @ [Halted]"
          by (subst (asm) run.simps) simp
        with c(1) show ?thesis
          by (simp add: successively_snoc_Halted)
      next
        case n: False
        with c(2) r2 st2 have s2: "settled prg tr2"
          by simp
        from "1.prems"(1) False x r2 st2 n
        have rec: "run (tr2 @ [Preempted (p' - p)]) regs2 prg p' = (tr', r)"
          by (subst (asm) run.simps) simp
        have "successively (follows_in_bundle prg) (tr2 @ [Preempted (p' - p)])"
          using c(1) s2 by (rule successively_snoc_settled)
        moreover have "settled prg (tr2 @ [Preempted (p' - p)])"
          by (simp add: settled_def)
        ultimately show ?thesis
          using "1.IH" [OF False refl x [symmetric] r2 [THEN sym, THEN sym] st2 [symmetric] n rec]
          by simp
      qed
    qed
  qed
qed

lemma run_instruction_bundle:
  assumes "run_instruction tr regs prog ip = (tr', r)"
    and "ip \<le> e" and "e < length prog"
    and "\<forall>j. ip \<le> j \<and> j < e \<longrightarrow> is_greedy (prog ! j)"
    and "\<not> is_greedy (prog ! e)"
  shows "\<exists>q regs_last. ip < q \<and> q \<le> e + 1 \<and> tr' = tr @ map Executed [ip..<q]
           \<and> dispatch_chain prog regs ip (q - 1 - ip) = Some regs_last
           \<and> r = execute regs_last prog (q - 1)
           \<and> (\<forall>regs' p. r = Inr (regs', Some p) \<longrightarrow> q = e + 1 \<and> p = e + 1)"
  using assms
proof (induction tr regs prog ip rule: run_instruction.induct)
  case (1 tr regs prg p)
  from "1.prems"(2,3) have f: "fetch prg p = Inr (prg ! p)"
    by (simp add: fetch_def)
  show ?case
  proof (cases "execute regs prg p")
    case (Inl err)
    with "1.prems"(1) f have "tr' = tr @ [Executed p]" and "r = Inl err"
      by (subst (asm) run_instruction.simps, simp)+
    with Inl "1.prems"(2) show ?thesis
      by (intro exI [of _ "Suc p"] exI [of _ regs]) simp
  next
    case x: (Inr st)
    obtain regs2 nx where st: "st = (regs2, nx)"
      by (cases st)
    show ?thesis
    proof (cases "\<exists>p'. nx = Some p' \<and> is_greedy (prg ! p)")
      case True
      then obtain p' where nx: "nx = Some p'" and g: "is_greedy (prg ! p)"
        by blast
      from x st nx have p': "p' = p + 1"
        by (auto dest: execute_next)
      from g "1.prems"(2,5) have lt: "p' \<le> e"
        unfolding p' by (cases "p = e") auto
      from "1.prems"(1) f x st nx g
      have rec: "run_instruction (tr @ [Executed p]) regs2 prg p' = (tr', r)"
        by (subst (asm) run_instruction.simps) simp
      have gr: "\<forall>j. p' \<le> j \<and> j < e \<longrightarrow> is_greedy (prg ! j)"
        using "1.prems"(4) p' by simp
      from "1.IH" [OF f x [unfolded st] refl nx g rec lt "1.prems"(3) gr "1.prems"(5)]
      obtain q regs_last where q: "p' < q" "q \<le> e + 1"
        "tr' = (tr @ [Executed p]) @ map Executed [p'..<q]"
        "dispatch_chain prg regs2 p' (q - 1 - p') = Some regs_last"
        "r = execute regs_last prg (q - 1)"
        "\<forall>regs' a. r = Inr (regs', Some a) \<longrightarrow> q = e + 1 \<and> a = e + 1"
        by blast
      from q(1) p' have pq: "p < q"
        by simp
      then have "[p..<q] = p # [p'..<q]"
        using p' by (simp add: upt_conv_Cons)
      with q(3) have t: "tr' = tr @ map Executed [p..<q]"
        by simp
      from q(1) p' have "q - 1 - p = Suc (q - 1 - p')"
        by simp
      with q(4) x st nx have "dispatch_chain prg regs p (q - 1 - p) = Some regs_last"
        by simp
      with pq q(2,5,6) t show ?thesis
        by blast
    next
      case False
      with "1.prems"(1) f x st have t: "tr' = tr @ [Executed p]" and r: "r = Inr (regs2, nx)"
        by (subst (asm) run_instruction.simps, auto split: option.splits)+
      have "Suc p = e + 1 \<and> a = e + 1" if "r = Inr (regs', Some a)" for regs' a
      proof -
        from that r have nx: "nx = Some a"
          by simp
        with x st have "a = p + 1"
          by (auto dest: execute_next)
        moreover from nx False have "\<not> is_greedy (prg ! p)"
          by simp
        with "1.prems"(2,4) have "p = e"
          by (cases "p = e") auto
        ultimately show ?thesis
          by simp
      qed
      with t r x st "1.prems"(2) show ?thesis
        by (intro exI [of _ "Suc p"] exI [of _ regs]) simp
    qed
  qed
qed

text \<open>
  C4 as the spec states it fails when a word of the bundle stops the machine. In a
  bundle of three greedy words and a plain one whose second word is a HALT, the call of
  \<open>run_instruction\<close> dispatches the first two words and returns the null pointer: the
  third and the fourth word of the bundle are never executed, and the run ends there.
\<close>

theorem greedy_bundle_cut_by_halt:
  "is_greedy (bundle_with_halt ! 0) \<and> is_greedy (bundle_with_halt ! 1)
   \<and> is_greedy (bundle_with_halt ! 2) \<and> \<not> is_greedy (bundle_with_halt ! 3)
   \<and> run_instruction [] clean_registers bundle_with_halt 0
       = ([Executed 0, Executed 1], Inr (clean_registers, None))
   \<and> fst (run [] clean_registers bundle_with_halt 0)
       = [Cycle_at 0, Bundle 0, Executed 0, Executed 1, Halted]"
  by code_simp

text \<open>
  C4, amended. Let the words \<open>s, \<dots>, e\<close> of the text be a greedy bundle: those before
  \<open>e\<close> carry the greedy bit and \<open>e\<close> does not. One call of \<open>run_instruction\<close> at \<open>s\<close>
  dispatches the words \<open>s, \<dots>, q - 1\<close> of the bundle, in this order and nothing else:
  each of the words before \<open>q - 1\<close> returned the address of its successor, and the result
  of the call is the result of the word \<open>q - 1\<close>. If that result is a next instruction
  pointer, the call has dispatched the whole bundle and returns \<open>e + 1\<close>, however long
  the bundle is; so the call stops inside the bundle only at a word that returned the
  null pointer (HALT, an unimplemented instruction) or threw. And in the trace of
  \<open>run\<close>, started anywhere, the event after the execution of a greedy word \<open>j\<close> is the
  execution of \<open>j + 1\<close> (or \<open>Halted\<close>, when the word ended the run): no preemption, no
  new cycle and no new call of \<open>run_instruction\<close> comes between two words of a bundle.
\<close>

theorem greedy_bundle_atomic:
  assumes "s \<le> e" and "e < length text"
    and "\<forall>j. s \<le> j \<and> j < e \<longrightarrow> is_greedy (text ! j)"
    and "\<not> is_greedy (text ! e)"
  shows "(\<forall>trace registers trace' r.
            run_instruction trace registers text s = (trace', r) \<longrightarrow>
              (\<exists>q registers_last. s < q \<and> q \<le> e + 1 \<and> trace' = trace @ map Executed [s..<q]
                 \<and> dispatch_chain text registers s (q - 1 - s) = Some registers_last
                 \<and> r = execute registers_last text (q - 1)
                 \<and> (\<forall>registers' p. r = Inr (registers', Some p) \<longrightarrow> q = e + 1 \<and> p = e + 1)))
    \<and> bundles_atomic text (fst (run [] registers0 text ip))"
proof (intro conjI allI impI)
  fix trace registers trace' r
  assume "run_instruction trace registers text s = (trace', r)"
  from run_instruction_bundle [OF this assms]
  show "\<exists>q registers_last. s < q \<and> q \<le> e + 1 \<and> trace' = trace @ map Executed [s..<q]
      \<and> dispatch_chain text registers s (q - 1 - s) = Some registers_last
      \<and> r = execute registers_last text (q - 1)
      \<and> (\<forall>registers' p. r = Inr (registers', Some p) \<longrightarrow> q = e + 1 \<and> p = e + 1)" .
next
  obtain tr' r where x: "run [] registers0 text ip = (tr', r)"
    by (cases "run [] registers0 text ip")
  from run_trace [OF x] show "bundles_atomic text (fst (run [] registers0 text ip))"
    by (simp add: x bundles_atomic_def settled_def)
qed

theorem greedy_bundle_atomic_witness:
  "(0 :: nat) \<le> 3 \<and> 3 < length bundle_of_three
   \<and> is_greedy (bundle_of_three ! 0) \<and> is_greedy (bundle_of_three ! 1)
   \<and> is_greedy (bundle_of_three ! 2) \<and> \<not> is_greedy (bundle_of_three ! 3)
   \<and> run_instruction [] clean_registers bundle_of_three 0
       = ([Executed 0, Executed 1, Executed 2, Executed 3], Inr (clean_registers, Some 4))
   \<and> dispatch_chain bundle_of_three clean_registers 0 3 = Some clean_registers
   \<and> execute clean_registers bundle_of_three 3 = Inr (clean_registers, Some 4)
   \<and> fst (run [] clean_registers bundle_of_three 0)
       = [Cycle_at 0, Bundle 0, Executed 0, Executed 1, Executed 2, Executed 3, Preempted 4,
          Cycle_at 32, Single 0, Executed 4, Halted]
   \<and> bundles_atomic bundle_of_three (fst (run [] clean_registers bundle_of_three 0))"
proof -
  have g: "is_greedy (bundle_of_three ! 0)" "is_greedy (bundle_of_three ! 1)"
    "is_greedy (bundle_of_three ! 2)" "\<not> is_greedy (bundle_of_three ! 3)"
    by code_simp+
  have l: "3 < length bundle_of_three"
    by (simp add: bundle_of_three_def)
  have a: "\<forall>j. 0 \<le> j \<and> j < 3 \<longrightarrow> is_greedy (bundle_of_three ! j)"
    using g(1-3) by (auto simp add: less_Suc_eq numeral_3_eq_3 numeral_2_eq_2)
  have r: "run_instruction [] clean_registers bundle_of_three 0
      = ([Executed 0, Executed 1, Executed 2, Executed 3], Inr (clean_registers, Some 4))"
    by code_simp
  have d: "dispatch_chain bundle_of_three clean_registers 0 3 = Some clean_registers"
    "execute clean_registers bundle_of_three 3 = Inr (clean_registers, Some 4)"
    by code_simp+
  have t: "fst (run [] clean_registers bundle_of_three 0)
      = [Cycle_at 0, Bundle 0, Executed 0, Executed 1, Executed 2, Executed 3, Preempted 4,
         Cycle_at 32, Single 0, Executed 4, Halted]"
    by code_simp
  from greedy_bundle_atomic [OF _ l a g(4), of clean_registers 0] g l r d t
  show ?thesis
    by simp
qed

section \<open>The relocation table\<close>

lemma symtab_entry_index_low:
  "symtab_entry_index text i = f_immediate (F_decode (text ! (i - 1)))"
  unfolding symtab_entry_index_def Let_def
  by (rule bit_word_eqI) (auto simp add: bit_simps)

lemma ELF64_R_SYM_INFO: "ELF64_R_SYM (ELF64_R_INFO s k) = ucast s"
proof -
  have "push_bit 32 (ucast s) + (ucast k :: 64 word) = push_bit 32 (ucast s) OR ucast k"
    by (rule disjunctive_add) (auto simp add: bit_simps dest: bit_imp_le_length)
  then show ?thesis
    unfolding ELF64_R_SYM_def ELF64_R_INFO_def
    by (simp, intro bit_word_eqI) (auto simp add: bit_simps dest: bit_imp_le_length)
qed

lemma ELF64_R_TYPE_INFO: "ELF64_R_TYPE (ELF64_R_INFO s k) = ucast k"
proof -
  have m: "(0xffffffff :: 64 word) = mask 32"
    by (simp add: mask_eq_exp_minus_1)
  have "push_bit 32 (ucast s) + (ucast k :: 64 word) = push_bit 32 (ucast s) OR ucast k"
    by (rule disjunctive_add) (auto simp add: bit_simps dest: bit_imp_le_length)
  then show ?thesis
    unfolding ELF64_R_TYPE_def ELF64_R_INFO_def m
    by (simp, intro bit_word_eqI) (auto simp add: bit_simps dest: bit_imp_le_length)
qed

lemma make_reloc_table_from_sites:
  assumes "\<forall>i \<in> set sites. relocated text i \<longrightarrow> 2 \<le> i"
  shows "make_reloc_table_from text sites acc
    = Inr (acc @ map (\<lambda>i. \<lparr>r_offset = of_nat (i - 2) * 8,
                             r_info = ELF64_R_INFO (f_immediate (F_decode (text ! (i - 1))))
                                        (R_VIUA_code (kind_at text i))\<rparr>)
                   (filter (relocated text) sites))"
  using assms
proof (induction sites arbitrary: acc)
  case Nil
  then show ?case by simp
next
  case (Cons i rest)
  then have rest: "\<forall>i \<in> set rest. relocated text i \<longrightarrow> 2 \<le> i"
    by simp
  show ?case
  proof (cases "relocated text i")
    case False
    with Cons.IH [OF rest] show ?thesis
      by (simp add: relocated_def masked_opcode_def Let_def)
  next
    case True
    with Cons.prems have "2 \<le> i"
      by simp
    with True Cons.IH [OF rest] show ?thesis
      by (auto simp add: relocated_def kind_at_def masked_opcode_def Let_def reloc_for_def
          and_then_def symtab_entry_index_low opcode_defs)
  qed
qed

lemma symbol_index_fits:
  assumes "symbol_index text i < 2 ^ 32"
  shows "symbol_index text i = ucast (f_immediate (F_decode (text ! (i - 1))))"
proof -
  from assms have "symbol_index text i AND mask 32 = symbol_index text i"
    by (rule less_mask_eq)
  moreover have "symbol_index text i AND mask 32
      = ucast (f_immediate (F_decode (text ! (i - 1))))"
    unfolding symbol_index_def
    by (rule bit_word_eqI) (auto simp add: bit_simps dest: bit_imp_le_length)
  ultimately show ?thesis
    by simp
qed

lemma offset_aligned: "take_bit 3 (x * 8 :: 64 word) = 0"
proof -
  have "x * 8 = push_bit 3 x"
    by (simp add: push_bit_eq_mult)
  then show ?thesis
    by (simp add: take_bit_push_bit)
qed

text \<open>
  C7. In a text as the assembler emits it, every CALL and ATOM comes after the two
  F-format words that carry the index of its symbol, an index that the 32-bit symbol
  field of a relocation can hold. The table of such a text has one entry for each CALL
  and ATOM, in the order of the text; the entry for index \<open>i\<close> has the offset of the
  word \<open>i - 2\<close> in bytes, a multiple of 8, as its symbol index the 64-bit value that the
  immediates of the two words before \<open>i\<close> form (upper 32 bits, then lower 32 bits), and
  the kind JUMP_SLOT for CALL and OBJECT for ATOM.
\<close>

theorem make_reloc_table_entries:
  assumes "\<forall>i < length text. relocated text i \<longrightarrow> 2 \<le> i \<and> symbol_index text i < 2 ^ 32"
  shows "\<exists>table. make_reloc_table text = Inr table
    \<and> length table = length (filter (relocated text) [0..<length text])
    \<and> (\<forall>k < length table.
          let i = filter (relocated text) [0..<length text] ! k
          in r_offset (table ! k) = of_nat (i - 2) * 8
             \<and> take_bit 3 (r_offset (table ! k)) = 0
             \<and> ELF64_R_SYM (r_info (table ! k)) = symbol_index text i
             \<and> ELF64_R_TYPE (r_info (table ! k))
                 = ucast (R_VIUA_code (if masked_opcode (text ! i) = CALL
                                         then R_VIUA_JUMP_SLOT else R_VIUA_OBJECT)))"
proof -
  let ?sites = "filter (relocated text) [0..<length text]"
  from assms have "\<forall>i \<in> set [0..<length text]. relocated text i \<longrightarrow> 2 \<le> i"
    by simp
  from make_reloc_table_from_sites [OF this, of "[]"]
  have t: "make_reloc_table text
      = Inr (map (\<lambda>i. \<lparr>r_offset = of_nat (i - 2) * 8,
                         r_info = ELF64_R_INFO (f_immediate (F_decode (text ! (i - 1))))
                                    (R_VIUA_code (kind_at text i))\<rparr>) ?sites)"
    by (simp add: make_reloc_table_def)
  have s: "symbol_index text (?sites ! k)
      = ucast (f_immediate (F_decode (text ! (?sites ! k - 1))))" if "k < length ?sites" for k
  proof -
    from that have "?sites ! k \<in> set ?sites"
      by (rule nth_mem)
    with assms have "symbol_index text (?sites ! k) < 2 ^ 32"
      by simp
    then show ?thesis
      by (rule symbol_index_fits)
  qed
  show ?thesis
    unfolding t
    by (simp add: ELF64_R_SYM_INFO ELF64_R_TYPE_INFO kind_at_def Let_def s offset_aligned)
qed

theorem make_reloc_table_entries_witness:
  "length sample_text = 7
   \<and> \<not> relocated sample_text 0 \<and> \<not> relocated sample_text 1 \<and> \<not> relocated sample_text 2
   \<and> relocated sample_text 3 \<and> symbol_index sample_text 3 = 5
   \<and> \<not> relocated sample_text 4 \<and> \<not> relocated sample_text 5
   \<and> relocated sample_text 6 \<and> symbol_index sample_text 6 = 7
   \<and> filter (relocated sample_text) [0..<length sample_text] = [3, 6]
   \<and> make_reloc_table sample_text
       = Inr [\<lparr>r_offset = 8, r_info = ELF64_R_INFO 5 (R_VIUA_code R_VIUA_JUMP_SLOT)\<rparr>,
              \<lparr>r_offset = 32, r_info = ELF64_R_INFO 7 (R_VIUA_code R_VIUA_OBJECT)\<rparr>]
   \<and> map_sum id (map (\<lambda>rel. (r_offset rel, ELF64_R_SYM (r_info rel), ELF64_R_TYPE (r_info rel))))
         (make_reloc_table sample_text)
       = Inr [(8, 5, 1), (32, 7, 2)]"
proof -
  have n: "length sample_text = 7"
    "\<not> relocated sample_text 0" "\<not> relocated sample_text 1" "\<not> relocated sample_text 2"
    "relocated sample_text 3" "symbol_index sample_text 3 = 5"
    "\<not> relocated sample_text 4" "\<not> relocated sample_text 5"
    "relocated sample_text 6" "symbol_index sample_text 6 = 7"
    by code_simp+
  have "\<forall>i \<in> set [0..<length sample_text].
      relocated sample_text i \<longrightarrow> 2 \<le> i \<and> symbol_index sample_text i < 2 ^ 32"
    by code_simp
  then have "\<forall>i < length sample_text.
      relocated sample_text i \<longrightarrow> 2 \<le> i \<and> symbol_index sample_text i < 2 ^ 32"
    by simp
  from make_reloc_table_entries [OF this] obtain table where
    "make_reloc_table sample_text = Inr table"
    by blast
  moreover have "make_reloc_table sample_text
      = Inr [\<lparr>r_offset = 8, r_info = ELF64_R_INFO 5 (R_VIUA_code R_VIUA_JUMP_SLOT)\<rparr>,
             \<lparr>r_offset = 32, r_info = ELF64_R_INFO 7 (R_VIUA_code R_VIUA_OBJECT)\<rparr>]"
    by code_simp
  moreover have "filter (relocated sample_text) [0..<length sample_text] = [3, 6]"
    by code_simp
  moreover have "map_sum id
        (map (\<lambda>rel. (r_offset rel, ELF64_R_SYM (r_info rel), ELF64_R_TYPE (r_info rel))))
        (make_reloc_table sample_text)
      = Inr [(8, 5, 1), (32, 7, 2)]"
    by code_simp
  ultimately show ?thesis
    using n by simp
qed

text \<open>
  The bound on the index is needed. \<^verbatim>\<open>make_reloc_table\<close> casts \<^verbatim>\<open>hi | lo\<close> to
  \<^verbatim>\<open>uint32_t\<close>: were the upper word of a pair not zero, the entry would name the symbol
  of the lower word alone.
\<close>

lemma reloc_symbol_index_is_truncated:
  "map_sum id (map (\<lambda>rel. (r_offset rel, ELF64_R_SYM (r_info rel))))
     (make_reloc_table call_after_halves)
     = Inr [(0, 5)]
   \<and> symbol_index call_after_halves 2 = 0x100000005"
  by code_simp

text \<open>
  The texts of \<open>emit_bytecode\<close>. When the functions are sequences of cooked
  instructions, the table of the emitted text is the list of the relocations of the
  references, in the order of the text, and each entry names the symbol index and the
  kind of its reference.
\<close>

lemma masked_opcode_F_encode: "masked_opcode (F_encode i) = f_opcode i AND OPCODE_MASK"
proof -
  have "opcode_of (F_encode i) = f_opcode i"
    by (rule opcode_of_eqI) (simp add: bit_F_encode)
  then show ?thesis
    by (simp add: masked_opcode_def masked_opcode_of)
qed

lemma carrier_not_relocated:
  assumes "f_opcode i AND FORMAT_MASK = FORMAT_F"
  shows "masked_opcode (F_encode i) \<noteq> CALL" and "masked_opcode (F_encode i) \<noteq> ATOM"
proof -
  have m: "(x AND OPCODE_MASK) AND FORMAT_MASK = x AND FORMAT_MASK" for x :: opcode_type
    by (simp add: and.assoc OPCODE_MASK_def FORMAT_MASK_def)
  have c: "CALL AND FORMAT_MASK \<noteq> FORMAT_F" "ATOM AND FORMAT_MASK \<noteq> FORMAT_F"
    by (simp_all add: opcode_defs)
  show "masked_opcode (F_encode i) \<noteq> CALL"
    using assms m [of "f_opcode i"] c(1) by (auto simp add: masked_opcode_F_encode)
  show "masked_opcode (F_encode i) \<noteq> ATOM"
    using assms m [of "f_opcode i"] c(2) by (auto simp add: masked_opcode_F_encode)
qed

lemma upt_one: "[n..<n + (1 + l)] = n # [n + 1..<n + 1 + l]"
  by (simp add: upt_conv_Cons)

lemma upt_three: "[n..<n + (3 + l)] = n # (n + 1) # (n + 2) # [n + 3..<n + 3 + l]"
  by (simp add: upt_conv_Cons numeral_3_eq_3)

lemma make_reloc_table_from_cooked:
  assumes "\<forall>c \<in> set cs. well_cooked c"
  shows "make_reloc_table_from (pre @ concat (map words_of cs))
           [length pre..<length pre + length (concat (map words_of cs))] acc
         = Inr (acc @ relocs_of (length pre) cs)"
  using assms
proof (induction cs arbitrary: pre acc)
  case Nil
  then show ?case by simp
next
  case (Cons c cs)
  let ?rest = "concat (map words_of cs)"
  from Cons.prems have wf: "well_cooked c" and rest: "\<forall>c \<in> set cs. well_cooked c"
    by simp_all
  show ?case
  proof (cases c)
    case (Plain w)
    have i: "[length pre..<length pre + length (concat (map words_of (c # cs)))]
        = length pre # [length (pre @ [w])..<length (pre @ [w]) + length ?rest]"
    proof -
      have "length (concat (map words_of (c # cs))) = 1 + length ?rest"
        and "length (pre @ [w]) = length pre + 1"
        by (simp_all add: Plain)
      then show ?thesis
        by (simp only: upt_one)
    qed
    have t: "pre @ concat (map words_of (c # cs)) = (pre @ [w]) @ ?rest"
      by (simp add: Plain)
    have n: "((pre @ [w]) @ ?rest) ! length pre = w"
      by (simp add: nth_append)
    from wf Plain have "masked_opcode w \<noteq> CALL" "masked_opcode w \<noteq> ATOM"
      by simp_all
    then show ?thesis
      unfolding i t using Cons.IH [OF rest, of "pre @ [w]" acc] n
      by (simp add: masked_opcode_def Let_def Plain del: append_assoc)
  next
    case (Reference index carrier w)
    let ?hi = "F_encode (carrier\<lparr>f_immediate := ucast (drop_bit 32 index)\<rparr>)"
    let ?lo = "F_encode (carrier\<lparr>f_immediate := ucast index\<rparr>)"
    let ?pre = "pre @ [?hi, ?lo, w]"
    let ?n = "length pre"
    have i: "[?n..<?n + length (concat (map words_of (c # cs)))]
        = ?n # (?n + 1) # (?n + 2) # [length ?pre..<length ?pre + length ?rest]"
    proof -
      have "length (concat (map words_of (c # cs))) = 3 + length ?rest"
        and "length ?pre = length pre + 3"
        by (simp_all add: Reference)
      then show ?thesis
        by (simp only: upt_three)
    qed
    have t: "pre @ concat (map words_of (c # cs)) = ?pre @ ?rest"
      by (simp add: Reference)
    have n: "(?pre @ ?rest) ! ?n = ?hi" "(?pre @ ?rest) ! (?n + 1) = ?lo"
      "(?pre @ ?rest) ! (?n + 2) = w"
      by (simp_all add: nth_append)
    from wf Reference have f: "f_opcode carrier AND FORMAT_MASK = FORMAT_F"
      and w: "masked_opcode w = CALL \<or> masked_opcode w = ATOM"
      by simp_all
    have hi: "masked_opcode ?hi \<noteq> CALL" "masked_opcode ?hi \<noteq> ATOM"
      and lo: "masked_opcode ?lo \<noteq> CALL" "masked_opcode ?lo \<noteq> ATOM"
      using f by (simp_all add: carrier_not_relocated)
    have s: "symtab_entry_index (?pre @ ?rest) (?n + 2) = ucast index"
      using n(2) by (simp add: symtab_entry_index_low F_roundtrip)
    have d: "CALL \<noteq> ATOM"
      by (simp add: opcode_defs)
    have r: "reloc_for (?pre @ ?rest) (?n + 2) k
        = Inr \<lparr>r_offset = of_nat ?n * 8, r_info = ELF64_R_INFO (ucast index) (R_VIUA_code k)\<rparr>"
      for k
      unfolding reloc_for_def s by simp
    have step: "make_reloc_table_from (?pre @ ?rest)
          (?n # (?n + 1) # (?n + 2) # [length ?pre..<length ?pre + length ?rest]) acc
        = make_reloc_table_from (?pre @ ?rest) [length ?pre..<length ?pre + length ?rest]
            (acc @ [\<lparr>r_offset = of_nat ?n * 8,
                      r_info = ELF64_R_INFO (ucast index)
                        (R_VIUA_code (if masked_opcode w = CALL then R_VIUA_JUMP_SLOT
                                      else R_VIUA_OBJECT))\<rparr>])"
      using hi lo w d
      unfolding make_reloc_table_from.simps(2) [of _ "length pre"]
        make_reloc_table_from.simps(2) [of _ "length pre + 1"]
        make_reloc_table_from.simps(2) [of _ "length pre + 2"]
        n r masked_opcode_def [symmetric] Let_def and_then_def
      by auto
    have ih: "make_reloc_table_from (?pre @ ?rest) [length ?pre..<length ?pre + length ?rest] acc'
        = Inr (acc' @ relocs_of (length ?pre) cs)" for acc'
      by (rule Cons.IH [OF rest])
    show ?thesis
      unfolding i t step ih by (simp add: Reference numeral_3_eq_3)
  qed
qed

lemma make_reloc_table_emit_bytecode:
  assumes "\<forall>c \<in> set (concat bodies). well_cooked c"
  shows "make_reloc_table (emit_bytecode (map (\<lambda>f. concat (map words_of f)) bodies))
    = Inr (relocs_of 1 (concat bodies))"
proof -
  have c: "concat (map (\<lambda>f. concat (map words_of f)) bodies)
      = concat (map words_of (concat bodies))"
    by (induction bodies) simp_all
  from make_reloc_table_from_cooked [OF assms, of "[N_encode \<lparr>n_opcode = HALT\<rparr>]" "[]"]
  have "make_reloc_table_from
      (N_encode \<lparr>n_opcode = HALT\<rparr> # concat (map words_of (concat bodies)))
      [1..<1 + length (concat (map words_of (concat bodies)))] []
    = Inr (relocs_of 1 (concat bodies))"
    by simp
  moreover have "masked_opcode (N_encode \<lparr>n_opcode = HALT\<rparr>) \<noteq> CALL"
    "masked_opcode (N_encode \<lparr>n_opcode = HALT\<rparr>) \<noteq> ATOM"
    by code_simp+
  ultimately show ?thesis
    unfolding make_reloc_table_def emit_bytecode_def c
    by (subst upt_rec) (simp add: masked_opcode_def Let_def)
qed


lemma symbol_field_holds: "x < 2 ^ 32 \<Longrightarrow> (ucast (ucast x :: 32 word) :: 64 word) = x"
proof -
  assume "x < 2 ^ 32"
  then have "x AND mask 32 = x"
    by (rule less_mask_eq)
  moreover have "(ucast (ucast x :: 32 word) :: 64 word) = x AND mask 32"
    by (rule bit_word_eqI) (auto simp add: bit_simps)
  ultimately show ?thesis
    by simp
qed

lemma relocs_of_entries:
  assumes "\<forall>c \<in> set cs. well_cooked c"
  shows "map (\<lambda>rel. (ELF64_R_SYM (r_info rel), ELF64_R_TYPE (r_info rel))) (relocs_of n cs)
    = map (\<lambda>c. (index_of c,
                  ucast (R_VIUA_code (if masked_opcode (site_of c) = CALL then R_VIUA_JUMP_SLOT
                                      else R_VIUA_OBJECT))))
        (filter is_Reference cs)"
  using assms
proof (induction cs arbitrary: n)
  case Nil
  then show ?case by simp
next
  case (Cons c cs)
  then show ?case
    by (cases c) (simp_all add: ELF64_R_SYM_INFO ELF64_R_TYPE_INFO symbol_field_holds)
qed

text \<open>A CALL or an ATOM among the first two words makes the stage fail.\<close>

lemma make_reloc_table_from_early_site:
  assumes "\<exists>i \<in> set sites. relocated text i \<and> i < 2"
  shows "make_reloc_table_from text sites acc = Inl Text_out_of_range"
  using assms
proof (induction sites arbitrary: acc)
  case Nil
  then show ?case by simp
next
  case (Cons i rest)
  show ?case
  proof (cases "relocated text i \<and> i < 2")
    case True
    then show ?thesis
      by (auto simp add: relocated_def masked_opcode_def Let_def reloc_for_def and_then_def)
  next
    case False
    with Cons.prems have "\<exists>i \<in> set rest. relocated text i \<and> i < 2"
      by auto
    from Cons.IH [OF this] show ?thesis
      by (auto simp add: masked_opcode_def Let_def reloc_for_def and_then_def)
  qed
qed

lemma make_reloc_table_early_site:
  assumes "i < length text" and "relocated text i" and "i < 2"
  shows "make_reloc_table text = Inl Text_out_of_range"
  unfolding make_reloc_table_def
  by (rule make_reloc_table_from_early_site) (use assms in auto)

section \<open>Entry-point detection\<close>

text \<open>
  C8 does not hold of the code as it stands: the loop does not skip the nodes that
  are not function definitions, as the other stages do, and casts a label definition
  that has the attribute to a function definition. A program whose only node with
  the attribute is a label has no entry function, yet detection does not return
  "none".
\<close>

theorem find_entry_point_takes_label:
  "find_entry_point
     [Fn_def \<lparr>lexeme_text = ''main'', lexeme_offset = 10\<rparr> [],
      Label_def \<lparr>lexeme_text = ''msg'', lexeme_offset = 40\<rparr>
        [\<lparr>lexeme_text = ''entry_point'', lexeme_offset = 30\<rparr>]]
   = Inl Not_a_Fn_def"
  by (simp add: find_entry_point_def has_attr_def attr_def as_Fn_def_def and_then_def)

text \<open>
  On programs in which only function definitions have the attribute the stage does
  what C8 says: with none it returns nothing, with one the name of that function, and
  with more the diagnostic for the second one, naming the first.
\<close>

lemma find_entry_point_from_functions:
  assumes "\<forall>n \<in> set nodes. has_attr n ''entry_point'' \<longrightarrow> is_Fn_def n"
  shows "find_entry_point_from acc nodes =
    (case (acc, entry_points nodes) of
       (None, []) \<Rightarrow> Inr None
     | (None, [f]) \<Rightarrow> Inr (Some (node_name f))
     | (None, f # dup # _) \<Rightarrow> Inl (Fatal (duplicated (node_name f) dup))
     | (Some first_fn, []) \<Rightarrow> Inr (Some first_fn)
     | (Some first_fn, dup # _) \<Rightarrow> Inl (Fatal (duplicated first_fn dup)))"
  using assms
proof (induction nodes arbitrary: acc)
  case Nil
  then show ?case
    by (simp add: entry_points_def split: option.splits)
next
  case (Cons n nodes)
  then have rest: "\<forall>n \<in> set nodes. has_attr n ''entry_point'' \<longrightarrow> is_Fn_def n"
    by simp
  show ?case
  proof (cases "has_attr n ''entry_point''")
    case False
    with Cons.IH [OF rest, of acc] show ?thesis
      by (simp add: entry_points_def)
  next
    case True
    with Cons.prems have "is_Fn_def n"
      by simp
    then have c: "as_Fn_def n = Inr n"
      by (cases n) (simp_all add: as_Fn_def_def)
    show ?thesis
    proof (cases acc)
      case None
      with True c Cons.IH [OF rest, of "Some (node_name n)"] show ?thesis
        by (simp add: entry_points_def and_then_def split: list.splits)
    next
      case (Some first_fn)
      with True c show ?thesis
        by (simp add: entry_points_def and_then_def duplicated_def)
    qed
  qed
qed

lemma find_entry_point_functions:
  assumes "\<forall>n \<in> set nodes. has_attr n ''entry_point'' \<longrightarrow> is_Fn_def n"
  shows "(2 \<le> length (entry_points nodes) \<longrightarrow>
            find_entry_point nodes
              = Inl (Fatal (duplicated (node_name (entry_points nodes ! 0))
                              (entry_points nodes ! 1))))
    \<and> (length (entry_points nodes) = 1 \<longrightarrow>
            find_entry_point nodes = Inr (Some (node_name (entry_points nodes ! 0))))
    \<and> (entry_points nodes = [] \<longrightarrow> find_entry_point nodes = Inr None)"
  unfolding find_entry_point_def find_entry_point_from_functions [OF assms]
  by (cases "entry_points nodes") (auto split: list.splits)

section \<open>The AA instruction\<close>

text \<open>
  C9. When the input register is there and does not hold an unsigned 64-bit value,
  AA raises "invalid operand type" and leaves the stack as it found it: the stack
  break and the pointer list of the process, the saved stack break of the frame and
  every register. Conversely, when AA ends with this exception, the stack is the one
  it started from.
\<close>

theorem aa_abort_leaves_stack:
  "(\<forall>v. fetch_proxy stack (aa_in op) ip = Inr v \<and> get_unsigned v = None \<longrightarrow>
      execute_AA op stack ip
        = (Some (Abort ip ''invalid operand type for aa instruction''), stack))
   \<and> (\<forall>ip' stack'.
        execute_AA op stack ip
          = (Some (Abort ip' ''invalid operand type for aa instruction''), stack') \<longrightarrow>
        stack' = stack \<and> ip' = ip)"
proof -
  have "execute_AA op stack ip
      = (Some (Abort ip ''invalid operand type for aa instruction''), stack)"
    if "fetch_proxy stack (aa_in op) ip = Inr v \<and> get_unsigned v = None" for v
    using that by (simp add: execute_AA_def)
  moreover have "stack' = stack \<and> ip' = ip"
    if a: "execute_AA op stack ip
      = (Some (Abort ip' ''invalid operand type for aa instruction''), stack')"
    for ip' stack'
  proof -
    have f: "fetch_proxy stack (aa_in op) ip
        \<noteq> Inl (Abort ip' ''invalid operand type for aa instruction'')"
      by (auto simp add: fetch_proxy_def Let_def)
    have s: "save_proxy st a ip v \<noteq> Inl (Abort ip' ''invalid operand type for aa instruction'')"
      for st a v
      by (auto simp add: save_proxy_def Let_def split: REGISTER_SET.splits)
    from a f s show ?thesis
      by (auto simp add: execute_AA_def Let_def split: sum.splits option.splits)
  qed
  ultimately show ?thesis
    by blast
qed

theorem aa_abort_leaves_stack_witness:
  "fetch_proxy (sample_stack Integer_signed) (make_local 2) 7
     = Inr \<lparr>type_of_unboxed = Integer_signed, value_of = U64 16\<rparr>
   \<and> get_unsigned \<lparr>type_of_unboxed = Integer_signed, value_of = U64 16\<rparr> = None
   \<and> execute_AA \<lparr>aa_out = make_local 1, aa_in = make_local 2, aa_spec = 0\<rparr>
        (sample_stack Integer_signed) 7
       = (Some (Abort 7 ''invalid operand type for aa instruction''), sample_stack Integer_signed)"
proof -
  have f: "fetch_proxy (sample_stack Integer_signed)
      (aa_in \<lparr>aa_out = make_local 1, aa_in = make_local 2, aa_spec = 0\<rparr>) 7
      = Inr \<lparr>type_of_unboxed = Integer_signed, value_of = U64 16\<rparr>"
    by (simp add: fetch_proxy_def sample_stack_def make_local_def Value_init_def)
  have g: "get_unsigned \<lparr>type_of_unboxed = Integer_signed, value_of = U64 16\<rparr> = None"
    by (simp add: get_unsigned_def)
  from aa_abort_leaves_stack [of "sample_stack Integer_signed"
      "\<lparr>aa_out = make_local 1, aa_in = make_local 2, aa_spec = 0\<rparr>" 7] f g
  show ?thesis
    by simp
qed

text \<open>With an unsigned size in the input register the same instruction does change the stack.\<close>

lemma aa_allocates:
  "execute_AA \<lparr>aa_out = make_local 1, aa_in = make_local 2, aa_spec = 0\<rparr>
     (sample_stack Integer_unsigned) 7
   = (None,
      \<lparr>proc = \<lparr>stack_break = 116, pointers = [\<lparr>ptr = 100\<rparr>]\<rparr>,
       frames = [\<lparr>local_registers = [Value_init,
                                      \<lparr>type_of_unboxed = Integer_unsigned, value_of = U64 100\<rparr>,
                                      \<lparr>type_of_unboxed = Integer_unsigned, value_of = U64 16\<rparr>],
                  parameters = [], saved_sbrk = 116\<rparr>]\<rparr>)"
  by (simp add: execute_AA_def fetch_proxy_def save_proxy_def get_unsigned_def sample_stack_def
      set_saved_sbrk_def make_local_def Let_def)

end
